theory Spec2Isabelle
  imports Main
begin

section \<open>The navigator card of swift-docc-render\<close>

text \<open>
  A shallow embedding of \<^verbatim>\<open>src/components/Navigator/NavigatorCard.vue\<close>: the
  component that owns the flat list of navigator nodes, the set of open nodes and the
  list of nodes to render. Every method and computed property that the properties
  below talk about is translated from the component's script; what the script imports
  from files that are not part of the sources at hand is either a parameter or a
  definition marked as modelled.
\<close>

subsection \<open>Data\<close>

text \<open>A JavaScript exception: reading a property of \<^verbatim>\<open>undefined\<close> raises a TypeError.\<close>

datatype error = TypeError

text \<open>
  \<^verbatim>\<open>TopicTypes\<close> is imported from \<^verbatim>\<open>constants/TopicTypes\<close>. The component names
  nine of its members; every other topic type is an \<open>otherTopicType\<close>.
\<close>

datatype TopicType =
    TopicTypes_article
  | TopicTypes_learn
  | TopicTypes_overview
  | TopicTypes_resources
  | TopicTypes_sampleCode
  | TopicTypes_section
  | TopicTypes_tutorial
  | TopicTypes_project
  | TopicTypes_groupMarker
  | otherTopicType string

text \<open>The three members of \<^verbatim>\<open>FILTER_TAGS\<close>.\<close>

datatype FilterTag = FILTER_TAGS_sampleCode | FILTER_TAGS_tutorials | FILTER_TAGS_articles

text \<open>
  The \<^verbatim>\<open>parent\<close> of a flat item is the key \<^verbatim>\<open>INDEX_ROOT_KEY\<close> (a non-empty string
  constant of \<^verbatim>\<open>constants/sidebar\<close>) or the uid of another item.
\<close>

datatype parent_key = INDEX_ROOT_KEY | UID int

text \<open>
  A \<^verbatim>\<open>NavigatorFlatItem\<close>, with the fields the component reads. JavaScript compares
  these objects by identity; every object the component handles is an element of the
  \<^verbatim>\<open>children\<close> prop, and records are compared by value here, which is the same
  comparison as long as no two elements of \<^verbatim>\<open>children\<close> are equal (unique uids
  imply that).
\<close>

record NavigatorFlatItem =
  uid :: int
  title :: string
  path :: "string option"
  type :: TopicType
  parent :: parent_key
  childUIDs :: "int list"

text \<open>
  The session storage under the five \<^verbatim>\<open>STORAGE_KEYS\<close>; \<open>None\<close> is a key that holds
  nothing, for which \<^verbatim>\<open>sessionStorage.get(key, fallback)\<close> returns the fallback.
  The stored array of open uids is only ever turned back into an object with those
  keys, so it is kept as the set of its elements.
\<close>

record Storage =
  STORAGE_KEYS_filter :: "string option"
  STORAGE_KEYS_technology :: "string option"
  STORAGE_KEYS_openNodes :: "int set option"
  STORAGE_KEYS_nodesToRender :: "int list option"
  STORAGE_KEYS_selectedTags :: "FilterTag list option"

text \<open>
  The component: its props (\<open>technology\<close>, \<open>children\<close>, \<open>activePath\<close>), its data and
  the session storage it reads and writes. \<open>openNodes\<close> is the object
  \<^verbatim>\<open>{ [uid]: true }\<close>, a set of uids. \<open>activePathChildren_ref\<close> is the identity of the
  array that the computed property \<^verbatim>\<open>activePathChildren\<close> currently holds: the
  watcher compares that array by reference. \<open>filter_input\<close> is the data field
  \<^verbatim>\<open>filter\<close>, the text as it is typed.
\<close>

record NavigatorCard =
  technology :: string
  children :: "NavigatorFlatItem list"
  activePath :: "string list"
  activePathChildren_ref :: nat
  filter_input :: string
  debouncedFilter :: string
  selectedTags :: "FilterTag list"
  openNodes :: "int set"
  nodesToRender :: "NavigatorFlatItem list"
  sessionStorage :: Storage

subsection \<open>Constants\<close>

definition FILTER_TAGS_TO_LABELS :: "(FilterTag \<times> string) list" where
  "FILTER_TAGS_TO_LABELS =
     [(FILTER_TAGS_sampleCode, ''Sample Code''),
      (FILTER_TAGS_tutorials, ''Tutorials''),
      (FILTER_TAGS_articles, ''Articles'')]"

definition FILTER_LABELS_TO_TAGS :: "(string \<times> FilterTag) list" where
  "FILTER_LABELS_TO_TAGS = map (\<lambda>(key, v). (v, key)) FILTER_TAGS_TO_LABELS"

fun TOPIC_TYPE_TO_TAG :: "TopicType \<Rightarrow> FilterTag option" where
  "TOPIC_TYPE_TO_TAG TopicTypes_article = Some FILTER_TAGS_articles"
| "TOPIC_TYPE_TO_TAG TopicTypes_learn = Some FILTER_TAGS_tutorials"
| "TOPIC_TYPE_TO_TAG TopicTypes_overview = Some FILTER_TAGS_tutorials"
| "TOPIC_TYPE_TO_TAG TopicTypes_resources = Some FILTER_TAGS_tutorials"
| "TOPIC_TYPE_TO_TAG TopicTypes_sampleCode = Some FILTER_TAGS_sampleCode"
| "TOPIC_TYPE_TO_TAG TopicTypes_section = Some FILTER_TAGS_tutorials"
| "TOPIC_TYPE_TO_TAG TopicTypes_tutorial = Some FILTER_TAGS_tutorials"
| "TOPIC_TYPE_TO_TAG TopicTypes_project = Some FILTER_TAGS_tutorials"
| "TOPIC_TYPE_TO_TAG TopicTypes_groupMarker = None"
| "TOPIC_TYPE_TO_TAG (otherTopicType t) = None"

subsection \<open>Computed properties\<close>

text \<open>\<^verbatim>\<open>availableTags\<close>: nothing once a tag is selected, else the values of the label table.\<close>

definition availableTags :: "FilterTag list \<Rightarrow> string list" where
  "availableTags selTags =
     (if length selTags \<noteq> 0 then [] else map snd FILTER_TAGS_TO_LABELS)"

text \<open>
  A JavaScript \<^verbatim>\<open>RegExp\<close> object: its source, its flags and the mutable
  \<^verbatim>\<open>lastIndex\<close>.
\<close>

record RegExp =
  source :: string
  flags :: string
  lastIndex :: nat

text \<open>
  \<^verbatim>\<open>filterPattern\<close>: \<^verbatim>\<open>null\<close> for an empty filter, else a new case-insensitive
  pattern. \<^verbatim>\<open>safeHighlightPattern\<close> (of \<^verbatim>\<open>utils/search-utils\<close>) is a parameter.
\<close>

definition filterPattern :: "(string \<Rightarrow> string) \<Rightarrow> string \<Rightarrow> RegExp option" where
  "filterPattern safeHighlightPattern debounced =
     (if debounced = [] then None
      else Some \<lparr>source = safeHighlightPattern debounced, flags = ''i'', lastIndex = 0\<rparr>)"

text \<open>
  \<^verbatim>\<open>RegExp.prototype.test\<close>, as the language defines it. The matcher itself is the
  parameter \<open>search\<close>: \<open>search src fl s i\<close> is the end of the first match of the pattern
  with source \<open>src\<close> and flags \<open>fl\<close> in \<open>s\<close> found from position \<open>i\<close> on, if there is
  one. A pattern with the global or the sticky flag starts at its \<open>lastIndex\<close> and
  stores the end of the match there (0 after a failure); any other pattern starts at 0
  and is left as it is. The result is the answer and the pattern object afterwards.
\<close>

definition RegExp_test ::
  "(string \<Rightarrow> string \<Rightarrow> string \<Rightarrow> nat \<Rightarrow> nat option) \<Rightarrow> RegExp \<Rightarrow> string \<Rightarrow> bool \<times> RegExp" where
  "RegExp_test search r s =
     (let stateful = (CHR ''g'' \<in> set (flags r) \<or> CHR ''y'' \<in> set (flags r));
          start = (if stateful then lastIndex r else 0)
      in if start > length s then (False, if stateful then r\<lparr>lastIndex := 0\<rparr> else r)
         else (case search (source r) (flags r) s start of
                 None \<Rightarrow> (False, if stateful then r\<lparr>lastIndex := 0\<rparr> else r)
               | Some e \<Rightarrow> (True, if stateful then r\<lparr>lastIndex := e\<rparr> else r)))"

definition hasFilter :: "NavigatorCard \<Rightarrow> bool" where
  "hasFilter c = (length (debouncedFilter c) \<noteq> 0 \<or> length (selectedTags c) \<noteq> 0)"

text \<open>
  The callback of \<^verbatim>\<open>children.filter\<close> in \<^verbatim>\<open>filteredChildren\<close>: it tests the one
  pattern object against the title of the child, so it takes the pattern as it is now
  and returns it as it is afterwards.
\<close>

definition filteredChildren_callback ::
  "(string \<Rightarrow> string \<Rightarrow> string \<Rightarrow> nat \<Rightarrow> nat option) \<Rightarrow> FilterTag list \<Rightarrow>
   RegExp option \<Rightarrow> NavigatorFlatItem \<Rightarrow> bool \<times> RegExp option" where
  "filteredChildren_callback search selTags pat child =
     (let (titleMatch, pat') =
            (case pat of
               None \<Rightarrow> (True, None)
             | Some r \<Rightarrow> (let (b, r') = RegExp_test search r (title child) in (b, Some r')));
          tagMatch =
            (if length selTags \<noteq> 0
             then (case TOPIC_TYPE_TO_TAG (type child) of
                     None \<Rightarrow> False
                   | Some t \<Rightarrow> t \<in> set selTags)
             else True)
      in (titleMatch \<and> tagMatch \<and> type child \<noteq> TopicTypes_groupMarker, pat'))"

text \<open>\<^verbatim>\<open>Array.prototype.filter\<close> with a callback that changes the pattern object.\<close>

fun filter_with_pattern ::
  "(RegExp option \<Rightarrow> NavigatorFlatItem \<Rightarrow> bool \<times> RegExp option) \<Rightarrow> RegExp option \<Rightarrow>
   NavigatorFlatItem list \<Rightarrow> NavigatorFlatItem list" where
  "filter_with_pattern f pat [] = []"
| "filter_with_pattern f pat (x # xs) =
     (let (keep, pat') = f pat x
      in if keep then x # filter_with_pattern f pat' xs else filter_with_pattern f pat' xs)"

definition filteredChildren ::
  "(string \<Rightarrow> string) \<Rightarrow> (string \<Rightarrow> string \<Rightarrow> string \<Rightarrow> nat \<Rightarrow> nat option) \<Rightarrow>
   NavigatorCard \<Rightarrow> NavigatorFlatItem list" where
  "filteredChildren safeHighlightPattern search c =
     (if \<not> hasFilter c then []
      else filter_with_pattern
             (filteredChildren_callback search (selectedTags c))
             (filterPattern safeHighlightPattern (debouncedFilter c))
             (children c))"

text \<open>
  \<^verbatim>\<open>childrenMap\<close>: \<^verbatim>\<open>Object.fromEntries\<close> of the pairs \<^verbatim>\<open>[child.uid, child]\<close>; of two
  entries with one key the later one stays.
\<close>

definition childrenMap :: "NavigatorCard \<Rightarrow> int \<rightharpoonup> NavigatorFlatItem" where
  "childrenMap c = map_of (rev (map (\<lambda>child. (uid child, child)) (children c)))"

text \<open>
  \<^verbatim>\<open>childrenStack.find(c => c.path === currentPath)\<close>. The candidates come from
  \<^verbatim>\<open>childrenMap\<close> lookups, so one may be \<^verbatim>\<open>undefined\<close>, and reading its path raises.
\<close>

fun find_by_path ::
  "NavigatorFlatItem option list \<Rightarrow> string \<Rightarrow> error + NavigatorFlatItem option" where
  "find_by_path [] currentPath = Inr None"
| "find_by_path (None # cs) currentPath = Inl TypeError"
| "find_by_path (Some c # cs) currentPath =
     (if path c = Some currentPath then Inr (Some c) else find_by_path cs currentPath)"

text \<open>
  The loop of \<^verbatim>\<open>activePathChildren\<close>. The stack is the reversed \<^verbatim>\<open>activePath\<close>, popped
  from its end: it is kept here with its top first, which is \<^verbatim>\<open>activePath\<close> in its own
  order.
\<close>

fun activePathChildren_loop ::
  "(int \<rightharpoonup> NavigatorFlatItem) \<Rightarrow> string list \<Rightarrow> NavigatorFlatItem option list \<Rightarrow>
   NavigatorFlatItem list \<Rightarrow> error + NavigatorFlatItem list" where
  "activePathChildren_loop cm [] childrenStack result = Inr result"
| "activePathChildren_loop cm (currentPath # stack) childrenStack result =
     (case find_by_path childrenStack currentPath of
        Inl e \<Rightarrow> Inl e
      | Inr None \<Rightarrow> Inr result
      | Inr (Some currentNode) \<Rightarrow>
          activePathChildren_loop cm stack
            (if stack \<noteq> [] then map cm (childUIDs currentNode) else childrenStack)
            (result @ [currentNode]))"

definition activePathChildren :: "NavigatorCard \<Rightarrow> error + NavigatorFlatItem list" where
  "activePathChildren c =
     activePathChildren_loop (childrenMap c) (activePath c) (map Some (children c)) []"

text \<open>\<^verbatim>\<open>activeUID\<close>: the uid of the last active path child, \<^verbatim>\<open>undefined\<close> if there is none.\<close>

definition activeUID :: "NavigatorCard \<Rightarrow> error + int option" where
  "activeUID c =
     (case activePathChildren c of
        Inl e \<Rightarrow> Inl e
      | Inr ns \<Rightarrow> Inr (if ns = [] then None else Some (uid (last ns))))"

subsection \<open>Methods\<close>

text \<open>
  \<^verbatim>\<open>getAllChildren\<close>: the stack is shifted from its front and the child uids are
  unshifted to its front. The loop does not end on a cyclic \<^verbatim>\<open>childUIDs\<close> relation
  (the value \<open>None\<close>) and raises on a uid that \<^verbatim>\<open>childrenMap\<close> does not hold.
\<close>

partial_function (option) getAllChildren_loop ::
  "(int \<rightharpoonup> NavigatorFlatItem) \<Rightarrow> int list \<Rightarrow> NavigatorFlatItem list \<Rightarrow>
   (error + NavigatorFlatItem list) option" where
  "getAllChildren_loop cm stack arr =
     (case stack of
        [] \<Rightarrow> Some (Inr arr)
      | current # rest \<Rightarrow>
          (case cm current of
             None \<Rightarrow> Some (Inl TypeError)
           | Some obj \<Rightarrow> getAllChildren_loop cm (childUIDs obj @ rest) (arr @ [obj])))"

declare getAllChildren_loop.simps [code]

definition getAllChildren ::
  "NavigatorCard \<Rightarrow> int \<Rightarrow> (error + NavigatorFlatItem list) option" where
  "getAllChildren c u = getAllChildren_loop (childrenMap c) [u] []"

text \<open>
  \<^verbatim>\<open>getParents\<close>: the stack holds at most one uid, pushed and popped at its end (its
  top is first here). \<^verbatim>\<open>obj.parent && obj.parent !== INDEX_ROOT_KEY\<close> is false for the
  root key and for the uid 0, which JavaScript takes for false.
\<close>

partial_function (option) getParents_loop ::
  "(int \<rightharpoonup> NavigatorFlatItem) \<Rightarrow> int list \<Rightarrow> NavigatorFlatItem list \<Rightarrow>
   (error + NavigatorFlatItem list) option" where
  "getParents_loop cm stack arr =
     (case stack of
        [] \<Rightarrow> Some (Inr arr)
      | current # rest \<Rightarrow>
          (case cm current of
             None \<Rightarrow> Some (Inl TypeError)
           | Some obj \<Rightarrow>
               getParents_loop cm
                 (case parent obj of
                    INDEX_ROOT_KEY \<Rightarrow> rest
                  | UID p \<Rightarrow> if p \<noteq> 0 then p # rest else rest)
                 (obj # arr)))"

declare getParents_loop.simps [code]

definition getParents ::
  "NavigatorCard \<Rightarrow> int \<Rightarrow> (error + NavigatorFlatItem list) option" where
  "getParents c u = getParents_loop (childrenMap c) [u] []"

text \<open>
  \<^verbatim>\<open>nodes.flatMap(({ uid }) => f(this.getParents(uid)))\<close>: the calls are made in order,
  and the first that raises or does not return ends the whole.
\<close>

fun flatMap_getParents ::
  "NavigatorCard \<Rightarrow> (NavigatorFlatItem list \<Rightarrow> NavigatorFlatItem list) \<Rightarrow> NavigatorFlatItem list \<Rightarrow>
   (error + NavigatorFlatItem list) option" where
  "flatMap_getParents c f [] = Some (Inr [])"
| "flatMap_getParents c f (n # ns) =
     (case getParents c (uid n) of
        None \<Rightarrow> None
      | Some (Inl e) \<Rightarrow> Some (Inl e)
      | Some (Inr ps) \<Rightarrow>
          (case flatMap_getParents c f ns of
             None \<Rightarrow> None
           | Some (Inl e) \<Rightarrow> Some (Inl e)
           | Some (Inr rest) \<Rightarrow> Some (Inr (f ps @ rest))))"

text \<open>\<^verbatim>\<open>persistState\<close> writes three keys of the session storage.\<close>

definition persistState :: "NavigatorCard \<Rightarrow> NavigatorCard" where
  "persistState c =
     c\<lparr>sessionStorage := (sessionStorage c)
         \<lparr>STORAGE_KEYS_technology := Some (technology c),
          STORAGE_KEYS_openNodes := Some (openNodes c),
          STORAGE_KEYS_nodesToRender := Some (map uid (nodesToRender c))\<rparr>\<rparr>"

text \<open>
  \<^verbatim>\<open>openNodes[child.parent]\<close> and \<^verbatim>\<open>this.childrenMap[child.parent]\<close>: the root key is a
  key of neither object.
\<close>

definition openNodes_at :: "int set \<Rightarrow> parent_key \<Rightarrow> bool" where
  "openNodes_at opn p = (case p of INDEX_ROOT_KEY \<Rightarrow> False | UID u \<Rightarrow> u \<in> opn)"

definition childrenMap_at :: "(int \<rightharpoonup> NavigatorFlatItem) \<Rightarrow> parent_key \<Rightarrow> NavigatorFlatItem option" where
  "childrenMap_at cm p = (case p of INDEX_ROOT_KEY \<Rightarrow> None | UID u \<Rightarrow> cm u)"

text \<open>
  The callback of \<^verbatim>\<open>children.filter\<close> in \<^verbatim>\<open>generateNodesToRender\<close>; \<open>allChildMatches\<close>
  and \<open>filteredCh\<close> are the contents of the two sets.
\<close>

definition generateNodesToRender_callback ::
  "bool \<Rightarrow> int set \<Rightarrow> (int \<rightharpoonup> NavigatorFlatItem) \<Rightarrow> NavigatorFlatItem list \<Rightarrow>
   NavigatorFlatItem list \<Rightarrow> NavigatorFlatItem \<Rightarrow> bool" where
  "generateNodesToRender_callback hasF opn cm allChildMatches filteredCh child =
     (if \<not> hasF then parent child = INDEX_ROOT_KEY \<or> openNodes_at opn (parent child)
      else (parent child = INDEX_ROOT_KEY \<and> child \<in> set allChildMatches)
         \<or> (openNodes_at opn (parent child)
             \<and> (case childrenMap_at cm (parent child) of
                   None \<Rightarrow> False
                 | Some p \<Rightarrow> p \<in> set filteredCh))
         \<or> child \<in> set allChildMatches)"

text \<open>
  \<^verbatim>\<open>generateNodesToRender\<close>. The scrolling it asks for at its end changes nothing of
  the component and is left out.
\<close>

definition generateNodesToRender ::
  "(string \<Rightarrow> string) \<Rightarrow> (string \<Rightarrow> string \<Rightarrow> string \<Rightarrow> nat \<Rightarrow> nat option) \<Rightarrow>
   NavigatorCard \<Rightarrow> (error + NavigatorCard) option" where
  "generateNodesToRender shp search c =
     (case flatMap_getParents c (\<lambda>ps. ps) (filteredChildren shp search c) of
        None \<Rightarrow> None
      | Some (Inl e) \<Rightarrow> Some (Inl e)
      | Some (Inr allChildMatches) \<Rightarrow>
          Some (Inr (persistState
            (c\<lparr>nodesToRender :=
                 filter (generateNodesToRender_callback (hasFilter c) (openNodes c)
                           (childrenMap c) allChildMatches (filteredChildren shp search c))
                   (children c)\<rparr>))))"

text \<open>\<^verbatim>\<open>nodesToRender.findIndex(n => n.uid === uid)\<close>, \<open>None\<close> for -1.\<close>

fun findIndex_uid :: "NavigatorFlatItem list \<Rightarrow> int \<Rightarrow> nat option" where
  "findIndex_uid [] u = None"
| "findIndex_uid (n # ns) u =
     (if uid n = u then Some 0 else map_option Suc (findIndex_uid ns u))"

text \<open>
  \<^verbatim>\<open>augmentRenderNodes\<close>. \<open>incl\<close> comes from \<^verbatim>\<open>childrenMap\<close> lookups: an
  \<^verbatim>\<open>undefined\<close> among them is spliced into the list, and \<^verbatim>\<open>persistState\<close> raises when
  it reads the uid of that entry.
\<close>

definition augmentRenderNodes ::
  "NavigatorCard \<Rightarrow> int \<Rightarrow> NavigatorFlatItem option list \<Rightarrow> NavigatorFlatItem list \<Rightarrow>
   error + NavigatorCard" where
  "augmentRenderNodes c u incl excl =
     (let pos = (case findIndex_uid (nodesToRender c) u of None \<Rightarrow> 0 | Some i \<Rightarrow> i + 1)
      in if length incl \<noteq> 0
         then (if None \<in> set incl then Inl TypeError
               else Inr (persistState
                 (c\<lparr>nodesToRender :=
                      take pos (nodesToRender c) @ map the incl @ drop pos (nodesToRender c)\<rparr>)))
         else if length excl \<noteq> 0
         then Inr (persistState
                (c\<lparr>nodesToRender := filter (\<lambda>item. item \<notin> set excl) (nodesToRender c)\<rparr>))
         else Inr (persistState c))"

text \<open>\<^verbatim>\<open>toggle\<close>: close an open node with all below it, or open a closed one.\<close>

definition toggle :: "NavigatorCard \<Rightarrow> NavigatorFlatItem \<Rightarrow> (error + NavigatorCard) option" where
  "toggle c node =
     (if uid node \<in> openNodes c
      then (case getAllChildren c (uid node) of
              None \<Rightarrow> None
            | Some (Inl e) \<Rightarrow> Some (Inl e)
            | Some (Inr allChildren) \<Rightarrow>
                Some (augmentRenderNodes
                        (c\<lparr>openNodes := openNodes c - uid ` set allChildren\<rparr>)
                        (uid node) [] (drop 1 allChildren)))
      else Some (augmentRenderNodes
                   (c\<lparr>openNodes := insert (uid node) (openNodes c)\<rparr>)
                   (uid node) (map (childrenMap c) (childUIDs node)) []))"

text \<open>\<^verbatim>\<open>toggleFullTree\<close>: close or open a node with all below it.\<close>

definition toggleFullTree ::
  "NavigatorCard \<Rightarrow> NavigatorFlatItem \<Rightarrow> (error + NavigatorCard) option" where
  "toggleFullTree c node =
     (case getAllChildren c (uid node) of
        None \<Rightarrow> None
      | Some (Inl e) \<Rightarrow> Some (Inl e)
      | Some (Inr allChildren) \<Rightarrow>
          (if uid node \<in> openNodes c
           then Some (augmentRenderNodes
                        (c\<lparr>openNodes := openNodes c - uid ` set allChildren\<rparr>)
                        (uid node) [] (drop 1 allChildren))
           else Some (augmentRenderNodes
                        (c\<lparr>openNodes := openNodes c \<union> uid ` set allChildren\<rparr>)
                        (uid node) (map Some (drop 1 allChildren)) [])))"

text \<open>
  The value of \<^verbatim>\<open>nodeChangeDeps\<close>, which the watcher hands to \<^verbatim>\<open>trackOpenNodes\<close> as it
  is now and as it was before. \<open>deps_activePathChildren_ref\<close> is the identity of the
  array \<open>deps_activePathChildren\<close>.
\<close>

record nodeChangeDeps =
  deps_filteredChildren :: "NavigatorFlatItem list"
  deps_activePathChildren :: "NavigatorFlatItem list"
  deps_activePathChildren_ref :: nat
  deps_debouncedFilter :: string
  deps_selectedTags :: "FilterTag list"

definition nodeChangeDeps ::
  "(string \<Rightarrow> string) \<Rightarrow> (string \<Rightarrow> string \<Rightarrow> string \<Rightarrow> nat \<Rightarrow> nat option) \<Rightarrow>
   NavigatorCard \<Rightarrow> error + nodeChangeDeps" where
  "nodeChangeDeps shp search c =
     (case activePathChildren c of
        Inl e \<Rightarrow> Inl e
      | Inr apc \<Rightarrow>
          Inr \<lparr>deps_filteredChildren = filteredChildren shp search c,
               deps_activePathChildren = apc,
               deps_activePathChildren_ref = activePathChildren_ref c,
               deps_debouncedFilter = debouncedFilter c,
               deps_selectedTags = selectedTags c\<rparr>)"

text \<open>\<^verbatim>\<open>Array.prototype.join\<close> on a list of tags: their names, separated by commas.\<close>

fun FilterTag_name :: "FilterTag \<Rightarrow> string" where
  "FilterTag_name FILTER_TAGS_sampleCode = ''sampleCode''"
| "FilterTag_name FILTER_TAGS_tutorials = ''tutorials''"
| "FilterTag_name FILTER_TAGS_articles = ''articles''"

fun join :: "FilterTag list \<Rightarrow> string" where
  "join [] = []"
| "join [t] = FilterTag_name t"
| "join (t # ts) = FilterTag_name t @ '','' @ join ts"

text \<open>
  \<^verbatim>\<open>trackOpenNodes\<close>, with the new and the old value of \<^verbatim>\<open>nodeChangeDeps\<close>; the old
  value is \<open>None\<close> when the method is called with one argument. It returns without a
  change when it takes the call for the syncing of a persisted filter or tag list.
\<close>

definition trackOpenNodes ::
  "(string \<Rightarrow> string) \<Rightarrow> (string \<Rightarrow> string \<Rightarrow> string \<Rightarrow> nat \<Rightarrow> nat option) \<Rightarrow>
   NavigatorCard \<Rightarrow> nodeChangeDeps \<Rightarrow> nodeChangeDeps option \<Rightarrow> (error + NavigatorCard) option" where
  "trackOpenNodes shp search c now old =
     (let filterBefore = map_option deps_debouncedFilter old;
          selectedTagsBefore = (case old of None \<Rightarrow> [] | Some b \<Rightarrow> deps_selectedTags b)
      in if (Some (deps_debouncedFilter now) \<noteq> filterBefore
             \<and> (filterBefore = None \<or> filterBefore = Some [])
             \<and> (case STORAGE_KEYS_filter (sessionStorage c) of
                   None \<Rightarrow> False
                 | Some f \<Rightarrow> f \<noteq> []))
          \<or> (join (deps_selectedTags now) \<noteq> join selectedTagsBefore
             \<and> length selectedTagsBefore = 0
             \<and> length (case STORAGE_KEYS_selectedTags (sessionStorage c) of
                          None \<Rightarrow> []
                        | Some ts \<Rightarrow> ts) \<noteq> 0)
         then Some (Inr c)
         else (case (if \<not> hasFilter c then Some (Inr (deps_activePathChildren now))
                     else flatMap_getParents c butlast (deps_filteredChildren now)) of
                 None \<Rightarrow> None
               | Some (Inl e) \<Rightarrow> Some (Inl e)
               | Some (Inr nodes) \<Rightarrow>
                   (let pageChange =
                          (case old of
                             None \<Rightarrow> True
                           | Some b \<Rightarrow> deps_activePathChildren_ref b
                                        \<noteq> deps_activePathChildren_ref now);
                        newOpenNodes = uid ` set nodes
                    in generateNodesToRender shp search
                         (c\<lparr>openNodes :=
                              (if pageChange then openNodes c else {}) \<union> newOpenNodes\<rparr>))))"

text \<open>
  \<^verbatim>\<open>restorePersistedState\<close>, called when the component is created. The scrolling at
  its end is left out.
\<close>

definition restorePersistedState ::
  "(string \<Rightarrow> string) \<Rightarrow> (string \<Rightarrow> string \<Rightarrow> string \<Rightarrow> nat \<Rightarrow> nat option) \<Rightarrow>
   NavigatorCard \<Rightarrow> (error + NavigatorCard) option" where
  "restorePersistedState shp search c =
     (let st = sessionStorage c;
          technology' = STORAGE_KEYS_technology st;
          nodesToRender' = (case STORAGE_KEYS_nodesToRender st of None \<Rightarrow> [] | Some ns \<Rightarrow> ns);
          filter' = (case STORAGE_KEYS_filter st of None \<Rightarrow> [] | Some f \<Rightarrow> f);
          track = (case nodeChangeDeps shp search c of
                     Inl e \<Rightarrow> Some (Inl e)
                   | Inr deps \<Rightarrow> trackOpenNodes shp search c deps None)
      in if length nodesToRender' = 0 \<and> filter' = [] then track
         else (let allNodesMatch = (\<forall>u \<in> set nodesToRender'. childrenMap c u \<noteq> None)
               in if technology' \<noteq> Some (technology c) \<or> \<not> allNodesMatch then track
                  else Some (Inr
                    (c\<lparr>openNodes :=
                         (case STORAGE_KEYS_openNodes st of None \<Rightarrow> {} | Some opn \<Rightarrow> opn),
                       nodesToRender := map (\<lambda>u. the (childrenMap c u)) nodesToRender',
                       selectedTags :=
                         (case STORAGE_KEYS_selectedTags st of None \<Rightarrow> [] | Some ts \<Rightarrow> ts),
                       filter_input := filter',
                       debouncedFilter := filter'\<rparr>))))"

subsection \<open>The tree behind the flat list\<close>

text \<open>
  Modelled from the spec: the tree source that flattens the hierarchy of a technology
  (the data provider of the navigator) is not among the sources. The specification
  describes its result: every node carries its uid, its parent is the root key or the
  uid of the node above it, \<open>childUIDs\<close> are the uids of its children in their declared
  order, and the flat list is in document order, parents before children, siblings in
  declared order.
\<close>

datatype NavigatorTree =
  NavigatorTree (node_uid: int) (node_title: string) (node_path: "string option")
    (node_type: TopicType) (node_children: "NavigatorTree list")

fun flattenNestedData :: "NavigatorTree list \<Rightarrow> parent_key \<Rightarrow> NavigatorFlatItem list" where
  "flattenNestedData [] p = []"
| "flattenNestedData (NavigatorTree u t pa ty ch # rest) p =
     \<lparr>uid = u, title = t, path = pa, type = ty, parent = p, childUIDs = map node_uid ch\<rparr>
       # flattenNestedData ch (UID u) @ flattenNestedData rest p"

text \<open>
  The invariants of the flat list: it is the flattening of a tree whose uids are
  pairwise different, none of them the number 0 (which \<open>getParents\<close> would take for
  a missing parent).
\<close>

definition flat_tree_invariants :: "NavigatorTree list \<Rightarrow> bool" where
  "flat_tree_invariants forest =
     (distinct (map uid (flattenNestedData forest INDEX_ROOT_KEY))
      \<and> 0 \<notin> set (map uid (flattenNestedData forest INDEX_ROOT_KEY)))"

text \<open>
  The tree of the scenarios of the specification: the top-level nodes A (uid 1) and
  B (uid 2), and C (uid 3) below B; C has a sibling D (uid 4) where a scenario needs
  one.
\<close>

definition tree_A :: NavigatorTree where
  "tree_A = NavigatorTree 1 ''A'' (Some ''/a'') TopicTypes_article []"

definition tree_C :: NavigatorTree where
  "tree_C = NavigatorTree 3 ''C'' (Some ''/b/c'') TopicTypes_tutorial []"

definition tree_D :: NavigatorTree where
  "tree_D = NavigatorTree 4 ''D'' (Some ''/b/d'') TopicTypes_article []"

definition tree_B :: NavigatorTree where
  "tree_B = NavigatorTree 2 ''B'' (Some ''/b'') TopicTypes_tutorial [tree_C]"

definition tree_B' :: NavigatorTree where
  "tree_B' = NavigatorTree 2 ''B'' (Some ''/b'') TopicTypes_tutorial [tree_C, tree_D]"

definition item_A :: NavigatorFlatItem where
  "item_A = \<lparr>uid = 1, title = ''A'', path = Some ''/a'', type = TopicTypes_article,
             parent = INDEX_ROOT_KEY, childUIDs = []\<rparr>"

definition item_B :: NavigatorFlatItem where
  "item_B = \<lparr>uid = 2, title = ''B'', path = Some ''/b'', type = TopicTypes_tutorial,
             parent = INDEX_ROOT_KEY, childUIDs = [3]\<rparr>"

definition item_B' :: NavigatorFlatItem where
  "item_B' = \<lparr>uid = 2, title = ''B'', path = Some ''/b'', type = TopicTypes_tutorial,
             parent = INDEX_ROOT_KEY, childUIDs = [3, 4]\<rparr>"

definition item_C :: NavigatorFlatItem where
  "item_C = \<lparr>uid = 3, title = ''C'', path = Some ''/b/c'', type = TopicTypes_tutorial,
             parent = UID 2, childUIDs = []\<rparr>"

definition item_D :: NavigatorFlatItem where
  "item_D = \<lparr>uid = 4, title = ''D'', path = Some ''/b/d'', type = TopicTypes_article,
             parent = UID 2, childUIDs = []\<rparr>"

text \<open>A component that has just been created: nothing typed, selected, open or stored.\<close>

definition empty_storage :: Storage where
  "empty_storage =
     \<lparr>STORAGE_KEYS_filter = None, STORAGE_KEYS_technology = None,
      STORAGE_KEYS_openNodes = None, STORAGE_KEYS_nodesToRender = None,
      STORAGE_KEYS_selectedTags = None\<rparr>"

definition new_card :: "string \<Rightarrow> NavigatorFlatItem list \<Rightarrow> string list \<Rightarrow> Storage \<Rightarrow> NavigatorCard" where
  "new_card tech chn ap st =
     \<lparr>technology = tech, children = chn, activePath = ap, activePathChildren_ref = 0,
      filter_input = [], debouncedFilter = [], selectedTags = [], openNodes = {},
      nodesToRender = [], sessionStorage = st\<rparr>"

text \<open>
  A matcher for the examples: the pattern matches where its source stands in the
  subject letter for letter.
\<close>

fun literal_search_in :: "string \<Rightarrow> string \<Rightarrow> nat \<Rightarrow> nat option" where
  "literal_search_in src [] i = (if src = [] then Some i else None)"
| "literal_search_in src (x # xs) i =
     (if take (length src) (x # xs) = src then Some (i + length src)
      else literal_search_in src xs (Suc i))"

definition literal_search :: "string \<Rightarrow> string \<Rightarrow> string \<Rightarrow> nat \<Rightarrow> nat option" where
  "literal_search src fl s i = (if length s < i then None else literal_search_in src (drop i s) i)"

subsection \<open>The filter predicate\<close>

text \<open>
  The filter rule in the words of the specification: the pattern is absent or finds a
  match in the title, no tag is selected or the type of the node maps to a selected
  tag, and the node is not a group marker.
\<close>

definition spec_node_matches ::
  "(string \<Rightarrow> string \<Rightarrow> string \<Rightarrow> nat \<Rightarrow> nat option) \<Rightarrow> RegExp option \<Rightarrow> FilterTag list \<Rightarrow>
   NavigatorFlatItem \<Rightarrow> bool" where
  "spec_node_matches search pat selTags n =
     ((case pat of None \<Rightarrow> True | Some r \<Rightarrow> search (source r) (flags r) (title n) 0 \<noteq> None)
      \<and> (selTags = [] \<or> (\<exists>t \<in> set selTags. TOPIC_TYPE_TO_TAG (type n) = Some t))
      \<and> type n \<noteq> TopicTypes_groupMarker)"

lemma RegExp_test_stateless:
  "CHR ''g'' \<notin> set (flags r) \<Longrightarrow> CHR ''y'' \<notin> set (flags r) \<Longrightarrow>
   RegExp_test search r s = (search (source r) (flags r) s 0 \<noteq> None, r)"
  by (simp add: RegExp_test_def split: option.splits)

lemma filterPattern_flags:
  "filterPattern shp f = Some r \<Longrightarrow> flags r = ''i'' \<and> source r = shp f \<and> lastIndex r = 0"
  by (auto simp: filterPattern_def split: if_splits)

lemma callback_filterPattern:
  "filteredChildren_callback search selTags (filterPattern shp f) child =
     (spec_node_matches search (filterPattern shp f) selTags child, filterPattern shp f)"
proof (cases "filterPattern shp f")
  case None
  then show ?thesis
    by (auto simp: filteredChildren_callback_def spec_node_matches_def split: option.splits)
next
  case (Some r)
  then have "flags r = ''i''"
    by (simp add: filterPattern_flags)
  then have "RegExp_test search r (title child) =
      (search (source r) (flags r) (title child) 0 \<noteq> None, r)"
    by (simp add: RegExp_test_stateless)
  with Some show ?thesis
    by (auto simp: filteredChildren_callback_def spec_node_matches_def split: option.splits)
qed

lemma filter_with_pattern_pure:
  "(\<And>x. f pat x = (g x, pat)) \<Longrightarrow> filter_with_pattern f pat xs = filter g xs"
  by (induction xs) auto

lemma filteredChildren_eq_filter:
  "filteredChildren shp search c
     = (if hasFilter c
        then filter (spec_node_matches search (filterPattern shp (debouncedFilter c))
                       (selectedTags c)) (children c)
        else [])"
  unfolding filteredChildren_def
  using filter_with_pattern_pure
    [of "filteredChildren_callback search (selectedTags c)"
        "filterPattern shp (debouncedFilter c)"
        "spec_node_matches search (filterPattern shp (debouncedFilter c)) (selectedTags c)"
        "children c"]
  by (simp add: callback_filterPattern)

lemma filteredChildren_subset: "set (filteredChildren shp search c) \<subseteq> set (children c)"
  by (auto simp: filteredChildren_eq_filter)

text \<open>
  C9. A node is kept by \<open>filteredChildren\<close> if and only if the pattern is absent or
  tests true against its title, no tag is selected or its type maps to a selected tag,
  and it is not a group marker. The pattern is built from the filter text through
  \<open>safeHighlightPattern\<close> with the flag \<open>i\<close> only, so a test leaves the pattern object
  as it was and a repeated test of the same title gives the same answer.
\<close>

theorem filteredChildren_predicate:
  "fst (filteredChildren_callback search (selectedTags c)
          (filterPattern shp (debouncedFilter c)) child)
     = spec_node_matches search (filterPattern shp (debouncedFilter c)) (selectedTags c) child
   \<and> filteredChildren shp search c
     = (if hasFilter c
        then filter (spec_node_matches search (filterPattern shp (debouncedFilter c))
                       (selectedTags c)) (children c)
        else [])
   \<and> (filterPattern shp (debouncedFilter c) = None \<longleftrightarrow> debouncedFilter c = [])
   \<and> (\<forall>r. filterPattern shp (debouncedFilter c) = Some r \<longrightarrow>
          source r = shp (debouncedFilter c) \<and> flags r = ''i'' \<and> CHR ''g'' \<notin> set (flags r)
          \<and> (\<forall>t. snd (RegExp_test search r t) = r
                 \<and> fst (RegExp_test search (snd (RegExp_test search r t)) t)
                     = fst (RegExp_test search r t)))"
proof -
  have a: "fst (filteredChildren_callback search (selectedTags c)
          (filterPattern shp (debouncedFilter c)) child)
     = spec_node_matches search (filterPattern shp (debouncedFilter c)) (selectedTags c) child"
    by (simp add: callback_filterPattern)
  have b: "filteredChildren shp search c
     = (if hasFilter c
        then filter (spec_node_matches search (filterPattern shp (debouncedFilter c))
                       (selectedTags c)) (children c)
        else [])"
    by (rule filteredChildren_eq_filter)
  have c: "filterPattern shp (debouncedFilter c) = None \<longleftrightarrow> debouncedFilter c = []"
    by (simp add: filterPattern_def)
  have d: "source r = shp (debouncedFilter c) \<and> flags r = ''i'' \<and> CHR ''g'' \<notin> set (flags r)
          \<and> (\<forall>t. snd (RegExp_test search r t) = r
                 \<and> fst (RegExp_test search (snd (RegExp_test search r t)) t)
                     = fst (RegExp_test search r t))"
    if "filterPattern shp (debouncedFilter c) = Some r" for r
  proof -
    from that have f: "flags r = ''i''" "source r = shp (debouncedFilter c)"
      by (simp_all add: filterPattern_flags)
    then have "RegExp_test search r t = (search (source r) (flags r) t 0 \<noteq> None, r)" for t
      by (simp add: RegExp_test_stateless)
    with f show ?thesis by simp
  qed
  from a b c d show ?thesis by blast
qed

theorem filteredChildren_predicate_witness:
  "filteredChildren (\<lambda>f. f) literal_search
     ((new_card ''T'' [item_A, item_B, item_C] [] empty_storage)\<lparr>debouncedFilter := ''C''\<rparr>)
     = [item_C]
   \<and> filterPattern (\<lambda>f. f) ''C'' = Some \<lparr>source = ''C'', flags = ''i'', lastIndex = 0\<rparr>
   \<and> RegExp_test literal_search \<lparr>source = ''C'', flags = ''i'', lastIndex = 0\<rparr> ''C''
       = (True, \<lparr>source = ''C'', flags = ''i'', lastIndex = 0\<rparr>)"
  using filteredChildren_predicate
    [of literal_search
        "(new_card ''T'' [item_A, item_B, item_C] [] empty_storage)\<lparr>debouncedFilter := ''C''\<rparr>"
        "\<lambda>f. f" item_C]
  by (simp add: new_card_def hasFilter_def filterPattern_def spec_node_matches_def
      item_A_def item_B_def item_C_def RegExp_test_def literal_search_def)

subsection \<open>Resolving the active path\<close>

text \<open>
  The resolution in the words of the specification, from a given first set of
  candidates: take the segments from the outermost inward, look in the candidates for
  the first node whose path is the segment, go on with the children of that node, and
  stop at the first segment that no candidate has.
\<close>

fun spec_resolve_from ::
  "(int \<rightharpoonup> NavigatorFlatItem) \<Rightarrow> NavigatorFlatItem list \<Rightarrow> string list \<Rightarrow>
   NavigatorFlatItem list" where
  "spec_resolve_from cm candidates [] = []"
| "spec_resolve_from cm candidates (segment # segments) =
     (case find (\<lambda>n. path n = Some segment) candidates of
        None \<Rightarrow> []
      | Some n \<Rightarrow> n # spec_resolve_from cm (List.map_filter cm (childUIDs n)) segments)"

text \<open>Every uid in a \<open>childUIDs\<close> list is a key of \<open>childrenMap\<close>.\<close>

definition childUIDs_resolve :: "NavigatorCard \<Rightarrow> bool" where
  "childUIDs_resolve c =
     (\<forall>n \<in> set (children c). \<forall>u \<in> set (childUIDs n). childrenMap c u \<noteq> None)"

lemma childrenMap_in_children:
  "childrenMap c u = Some n \<Longrightarrow> n \<in> set (children c) \<and> uid n = u"
  unfolding childrenMap_def by (auto dest!: map_of_SomeD)

lemma find_by_path_defined:
  "find_by_path (map Some cands) seg = Inr (find (\<lambda>n. path n = Some seg) cands)"
  by (induction cands) auto

lemma find_SomeD: "find P xs = Some x \<Longrightarrow> x \<in> set xs \<and> P x"
  by (induction xs) (auto split: if_splits)

lemma childUIDs_candidates:
  assumes "childUIDs_resolve c" "n \<in> set (children c)"
  shows "map (childrenMap c) (childUIDs n)
           = map Some (List.map_filter (childrenMap c) (childUIDs n))"
    and "set (List.map_filter (childrenMap c) (childUIDs n)) \<subseteq> set (children c)"
proof -
  have "\<forall>u \<in> set us. childrenMap c u \<noteq> None \<Longrightarrow>
        map (childrenMap c) us = map Some (List.map_filter (childrenMap c) us)" for us
    by (induction us) (auto simp: List.map_filter_simps)
  with assms show "map (childrenMap c) (childUIDs n)
      = map Some (List.map_filter (childrenMap c) (childUIDs n))"
    by (simp add: childUIDs_resolve_def)
  show "set (List.map_filter (childrenMap c) (childUIDs n)) \<subseteq> set (children c)"
    by (auto simp: List.map_filter_def dest: childrenMap_in_children)
qed

lemma activePathChildren_loop_resolve:
  assumes "childUIDs_resolve c"
  shows "set cands \<subseteq> set (children c) \<Longrightarrow>
     activePathChildren_loop (childrenMap c) segs (map Some cands) result
       = Inr (result @ spec_resolve_from (childrenMap c) cands segs)"
proof (induction segs arbitrary: cands result)
  case Nil
  then show ?case by simp
next
  case (Cons seg segs)
  show ?case
  proof (cases "find (\<lambda>n. path n = Some seg) cands")
    case None
    then show ?thesis by (simp add: find_by_path_defined)
  next
    case (Some n)
    then have n: "n \<in> set (children c)"
      using Cons.prems by (auto dest: find_SomeD)
    show ?thesis
    proof (cases "segs = []")
      case True
      with Some show ?thesis by (simp add: find_by_path_defined)
    next
      case False
      with Some show ?thesis
        using Cons.IH [OF childUIDs_candidates(2) [OF assms n]]
          childUIDs_candidates(1) [OF assms n]
        by (simp add: find_by_path_defined)
    qed
  qed
qed

lemma spec_resolve_from_paths:
  "map path (spec_resolve_from cm cands segs)
     = map Some (take (length (spec_resolve_from cm cands segs)) segs)"
  by (induction segs arbitrary: cands) (auto split: option.splits dest: find_SomeD)

text \<open>
  C8, amended. The resolution walks the segments of the active path from the outermost
  inward; the first segment is looked up among all nodes of the flat list, every later
  one among the children of the node resolved before it. At the first segment without
  a match it stops and returns the nodes resolved so far, whose paths are the leading
  segments of the active path. It raises no error when every child uid is a key of the
  node map. The active uid is the uid of the last resolved node, and undefined when
  no segment resolves.
\<close>

theorem activePathChildren_resolution:
  assumes "childUIDs_resolve c"
  shows "activePathChildren c
           = Inr (spec_resolve_from (childrenMap c) (children c) (activePath c))
     \<and> map path (spec_resolve_from (childrenMap c) (children c) (activePath c))
           = map Some (take (length (spec_resolve_from (childrenMap c) (children c)
                                       (activePath c))) (activePath c))
     \<and> activeUID c
           = Inr (if spec_resolve_from (childrenMap c) (children c) (activePath c) = []
                  then None
                  else Some (uid (last (spec_resolve_from (childrenMap c) (children c)
                                          (activePath c)))))"
proof -
  have "activePathChildren c
      = Inr (spec_resolve_from (childrenMap c) (children c) (activePath c))"
    unfolding activePathChildren_def
    using activePathChildren_loop_resolve [OF assms, of "children c" "activePath c" "[]"]
    by simp
  then show ?thesis
    by (simp add: activeUID_def spec_resolve_from_paths)
qed

theorem activePathChildren_resolution_witness:
  "childUIDs_resolve
     (new_card ''T'' (flattenNestedData [tree_A, tree_B] INDEX_ROOT_KEY) [''/b'', ''/x'']
        empty_storage)
   \<and> activePathChildren
        (new_card ''T'' (flattenNestedData [tree_A, tree_B] INDEX_ROOT_KEY) [''/b'', ''/x'']
           empty_storage) = Inr [item_B]
   \<and> activeUID
        (new_card ''T'' (flattenNestedData [tree_A, tree_B] INDEX_ROOT_KEY) [''/b'', ''/x'']
           empty_storage) = Inr (Some 2)"
proof -
  have h: "childUIDs_resolve
     (new_card ''T'' (flattenNestedData [tree_A, tree_B] INDEX_ROOT_KEY) [''/b'', ''/x'']
        empty_storage)"
    by (simp add: childUIDs_resolve_def new_card_def childrenMap_def tree_A_def tree_B_def
        tree_C_def)
  show ?thesis
    using h activePathChildren_resolution [OF h]
    by (simp add: new_card_def childrenMap_def tree_A_def tree_B_def tree_C_def item_B_def
        List.map_filter_simps)
qed

text \<open>
  C8 as it is written fails: the first segment is not looked up among the top-level
  children only. For the active path \<open>[/b/c]\<close> the top-level nodes A and B hold no
  match, so the resolution of the specification stops with nothing, while the
  component resolves C, which lies below B, and makes it the active node.
\<close>

theorem activePathChildren_top_level_counterexample:
  "activePathChildren
     (new_card ''T'' (flattenNestedData [tree_A, tree_B] INDEX_ROOT_KEY) [''/b/c'']
        empty_storage) = Inr [item_C]
   \<and> activeUID
       (new_card ''T'' (flattenNestedData [tree_A, tree_B] INDEX_ROOT_KEY) [''/b/c'']
          empty_storage) = Inr (Some 3)
   \<and> parent item_C \<noteq> INDEX_ROOT_KEY
   \<and> spec_resolve_from
       (childrenMap (new_card ''T'' (flattenNestedData [tree_A, tree_B] INDEX_ROOT_KEY)
                       [''/b/c''] empty_storage))
       (filter (\<lambda>n. parent n = INDEX_ROOT_KEY)
          (flattenNestedData [tree_A, tree_B] INDEX_ROOT_KEY))
       [''/b/c''] = []"
  by (simp add: activePathChildren_def activeUID_def new_card_def childrenMap_def
      tree_A_def tree_B_def tree_C_def item_C_def)

subsection \<open>The flattened tree: subtrees and ancestor chains\<close>

text \<open>\<open>cm\<close> maps the uid of every item of the list to that item.\<close>


definition cm_holds :: "(int \<rightharpoonup> NavigatorFlatItem) \<Rightarrow> NavigatorFlatItem list \<Rightarrow> bool" where
  "cm_holds cm xs = (\<forall>x \<in> set xs. cm (uid x) = Some x)"

lemma cm_holds_append [simp]: "cm_holds cm (xs @ ys) = (cm_holds cm xs \<and> cm_holds cm ys)"
  by (auto simp: cm_holds_def)

lemma cm_holds_Cons [simp]: "cm_holds cm (x # xs) = (cm (uid x) = Some x \<and> cm_holds cm xs)"
  by (auto simp: cm_holds_def)

lemma getAllChildren_loop_flatten:
  "cm_holds cm (flattenNestedData ts p) \<Longrightarrow>
   getAllChildren_loop cm (map node_uid ts @ rest) arr
     = getAllChildren_loop cm rest (arr @ flattenNestedData ts p)"
proof (induction ts p arbitrary: rest arr rule: flattenNestedData.induct)
  case (1 p)
  then show ?case by simp
next
  case (2 u t pa ty ch sibs p)
  let ?item = "\<lparr>uid = u, title = t, path = pa, type = ty, parent = p, childUIDs = map node_uid ch\<rparr>"
  from "2.prems" have h: "cm u = Some ?item" "cm_holds cm (flattenNestedData ch (UID u))"
    "cm_holds cm (flattenNestedData sibs p)" by simp_all
  have "getAllChildren_loop cm (map node_uid (NavigatorTree u t pa ty ch # sibs) @ rest) arr
      = getAllChildren_loop cm (map node_uid ch @ (map node_uid sibs @ rest)) (arr @ [?item])"
    using h(1) by (subst getAllChildren_loop.simps) simp
  also have "\<dots> = getAllChildren_loop cm (map node_uid sibs @ rest)
      ((arr @ [?item]) @ flattenNestedData ch (UID u))"
    by (rule "2.IH"(1) [OF h(2)])
  also have "\<dots> = getAllChildren_loop cm rest
      (((arr @ [?item]) @ flattenNestedData ch (UID u)) @ flattenNestedData sibs p)"
    by (rule "2.IH"(2) [OF h(3)])
  finally show ?case by simp
qed

lemma parent_flatten:
  "x \<in> set (flattenNestedData ts p) \<Longrightarrow>
   parent x = p \<or> parent x \<in> UID ` uid ` set (flattenNestedData ts p)"
  by (induction ts p rule: flattenNestedData.induct) auto

text \<open>The items of the roots of a forest, and a forest below a parent key whose uids
  are pairwise different and different from that key.\<close>

fun root_items :: "NavigatorTree list \<Rightarrow> parent_key \<Rightarrow> NavigatorFlatItem list" where
  "root_items [] p = []"
| "root_items (NavigatorTree u t pa ty ch # rest) p =
     \<lparr>uid = u, title = t, path = pa, type = ty, parent = p, childUIDs = map node_uid ch\<rparr>
       # root_items rest p"

definition wf_sub :: "NavigatorTree list \<Rightarrow> parent_key \<Rightarrow> bool" where
  "wf_sub ts p = (distinct (map uid (flattenNestedData ts p))
     \<and> p \<notin> UID ` uid ` set (flattenNestedData ts p))"

lemma wf_sub_Cons:
  "wf_sub (NavigatorTree u t pa ty ch # sibs) p \<Longrightarrow>
     wf_sub ch (UID u) \<and> wf_sub sibs p \<and> p \<noteq> UID u
     \<and> u \<notin> uid ` set (flattenNestedData ch (UID u))
     \<and> u \<notin> uid ` set (flattenNestedData sibs p)
     \<and> uid ` set (flattenNestedData ch (UID u)) \<inter> uid ` set (flattenNestedData sibs p) = {}"
  by (auto simp: wf_sub_def)

lemma filter_parent_flatten:
  "wf_sub ts p \<Longrightarrow> filter (\<lambda>d. parent d = p) (flattenNestedData ts p) = root_items ts p"
proof (induction ts p rule: flattenNestedData.induct)
  case (1 p)
  then show ?case by simp
next
  case (2 u t pa ty ch sibs p)
  note w = wf_sub_Cons [OF "2.prems"]
  have "filter (\<lambda>d. parent d = p) (flattenNestedData ch (UID u)) = []"
  proof -
    have "parent x \<noteq> p" if "x \<in> set (flattenNestedData ch (UID u))" for x
      using parent_flatten [OF that] w "2.prems" by (auto simp: wf_sub_def)
    then show ?thesis by (simp add: filter_empty_conv)
  qed
  with "2.IH"(2) w show ?case by simp
qed

lemma map_cm_root_items:
  "cm_holds cm (flattenNestedData ts p) \<Longrightarrow> map cm (map node_uid ts) = map Some (root_items ts p)"
  by (induction ts p rule: flattenNestedData.induct) auto

lemma parent_outside:
  "set S \<subseteq> set A \<Longrightarrow> parent x \<notin> UID ` uid ` set A \<Longrightarrow> parent x \<notin> UID ` uid ` set S"
  by blast

lemma flatten_decompose:
  assumes "wf_sub ts p" "n \<in> set (flattenNestedData ts p)"
  shows "\<exists>pre ch post.
           flattenNestedData ts p = pre @ n # flattenNestedData ch (UID (uid n)) @ post
         \<and> childUIDs n = map node_uid ch
         \<and> wf_sub ch (UID (uid n))
         \<and> (\<forall>x \<in> set pre \<union> set post \<union> {n}.
               parent x \<notin> UID ` uid ` set (n # flattenNestedData ch (UID (uid n))))"
  using assms
proof (induction ts p rule: flattenNestedData.induct)
  case (1 p)
  then show ?case by simp
next
  case (2 u t pa ty ch sibs p)
  define item where
    "item = \<lparr>uid = u, title = t, path = pa, type = ty, parent = p, childUIDs = map node_uid ch\<rparr>"
  define below where "below = flattenNestedData ch (UID u)"
  define later where "later = flattenNestedData sibs p"
  have flat: "flattenNestedData (NavigatorTree u t pa ty ch # sibs) p = item # below @ later"
    by (simp add: item_def below_def later_def)
  have item: "uid item = u" "parent item = p" "childUIDs item = map node_uid ch"
    by (simp_all add: item_def)
  note w = wf_sub_Cons [OF "2.prems"(1), folded below_def later_def]
  have wch: "wf_sub ch (UID u)" and wsibs: "wf_sub sibs p"
    and pu: "p \<noteq> UID u"
    and ub: "u \<notin> uid ` set below" and ul: "u \<notin> uid ` set later"
    and bl: "uid ` set below \<inter> uid ` set later = {}"
    using w by simp_all
  have pb: "p \<notin> UID ` uid ` set below" and pl: "p \<notin> UID ` uid ` set later"
    using "2.prems"(1) unfolding wf_sub_def flat by auto
  have later_par: "parent x \<notin> UID ` uid ` set (item # below)" if "x \<in> set later" for x
  proof -
    from that have "parent x = p \<or> parent x \<in> UID ` uid ` set later"
      unfolding later_def by (rule parent_flatten)
    then show ?thesis using pu pb ul bl item(1) by auto
  qed
  have below_par: "parent x \<notin> UID ` uid ` set later" if "x \<in> set below" for x
  proof -
    from that have "parent x = UID u \<or> parent x \<in> UID ` uid ` set below"
      unfolding below_def by (rule parent_flatten)
    then show ?thesis using ul bl by auto
  qed
  from "2.prems"(2) consider (root) "n = item" | (below) "n \<in> set below"
    | (later) "n \<in> set later"
    unfolding flat by auto
  then show ?case
  proof cases
    case root
    have "item # below @ later = [] @ n # flattenNestedData ch (UID (uid n)) @ later"
      using root item by (simp add: below_def)
    moreover have "childUIDs n = map node_uid ch" using root item by simp
    moreover have "wf_sub ch (UID (uid n))" using root wch item by simp
    moreover have "\<forall>x \<in> set [] \<union> set later \<union> {n}.
        parent x \<notin> UID ` uid ` set (n # flattenNestedData ch (UID (uid n)))"
    proof
      fix x assume "x \<in> set [] \<union> set later \<union> {n}"
      then consider "x = item" | "x \<in> set later" using root by auto
      then have "parent x \<notin> UID ` uid ` set (item # below)"
      proof cases
        case 1
        then show ?thesis using item pu pb by auto
      next
        case 2
        then show ?thesis by (rule later_par)
      qed
      then show "parent x \<notin> UID ` uid ` set (n # flattenNestedData ch (UID (uid n)))"
        using root item by (simp add: below_def)
    qed
    ultimately show ?thesis unfolding flat by blast
  next
    case below
    have "n \<in> set (flattenNestedData ch (UID u))" using below by (simp add: below_def)
    from "2.IH"(1) [OF wch this] obtain pre ch' post where
      d: "below = pre @ n # flattenNestedData ch' (UID (uid n)) @ post"
      and c: "childUIDs n = map node_uid ch'" and w': "wf_sub ch' (UID (uid n))"
      and par: "\<forall>x \<in> set pre \<union> set post \<union> {n}.
               parent x \<notin> UID ` uid ` set (n # flattenNestedData ch' (UID (uid n)))"
      unfolding below_def by blast
    define S where "S = n # flattenNestedData ch' (UID (uid n))"
    have sub: "set S \<subseteq> set below"
      unfolding S_def by (subst d) auto
    have "item # below @ later = (item # pre) @ n # flattenNestedData ch' (UID (uid n)) @ (post @ later)"
      by (subst d) simp
    moreover have "\<forall>x \<in> set (item # pre) \<union> set (post @ later) \<union> {n}. parent x \<notin> UID ` uid ` set S"
    proof
      fix x assume "x \<in> set (item # pre) \<union> set (post @ later) \<union> {n}"
      then consider "x = item" | "x \<in> set pre \<union> set post \<union> {n}" | "x \<in> set later" by auto
      then show "parent x \<notin> UID ` uid ` set S"
      proof cases
        case 1
        have "parent x \<notin> UID ` uid ` set below" using 1 item pb by simp
        then show ?thesis by (rule parent_outside [OF sub])
      next
        case 2
        then show ?thesis using par unfolding S_def by blast
      next
        case 3
        have "parent x \<notin> UID ` uid ` set below" using later_par [OF 3] by auto
        then show ?thesis by (rule parent_outside [OF sub])
      qed
    qed
    ultimately show ?thesis using c w' unfolding flat S_def by blast
  next
    case later
    have "n \<in> set (flattenNestedData sibs p)" using later by (simp add: later_def)
    from "2.IH"(2) [OF wsibs this] obtain pre ch' post where
      d: "later = pre @ n # flattenNestedData ch' (UID (uid n)) @ post"
      and c: "childUIDs n = map node_uid ch'" and w': "wf_sub ch' (UID (uid n))"
      and par: "\<forall>x \<in> set pre \<union> set post \<union> {n}.
               parent x \<notin> UID ` uid ` set (n # flattenNestedData ch' (UID (uid n)))"
      unfolding later_def by blast
    define S where "S = n # flattenNestedData ch' (UID (uid n))"
    have sub: "set S \<subseteq> set later"
      unfolding S_def by (subst d) auto
    have "item # below @ later = (item # below @ pre) @ n # flattenNestedData ch' (UID (uid n)) @ post"
      by (subst d) simp
    moreover have "\<forall>x \<in> set (item # below @ pre) \<union> set post \<union> {n}. parent x \<notin> UID ` uid ` set S"
    proof
      fix x assume "x \<in> set (item # below @ pre) \<union> set post \<union> {n}"
      then consider "x = item" | "x \<in> set pre \<union> set post \<union> {n}" | "x \<in> set below" by auto
      then show "parent x \<notin> UID ` uid ` set S"
      proof cases
        case 1
        have "parent x \<notin> UID ` uid ` set later" using 1 item pl by simp
        then show ?thesis by (rule parent_outside [OF sub])
      next
        case 2
        then show ?thesis using par unfolding S_def by blast
      next
        case 3
        have "parent x \<notin> UID ` uid ` set later" by (rule below_par [OF 3])
        then show ?thesis by (rule parent_outside [OF sub])
      qed
    qed
    ultimately show ?thesis using c w' unfolding flat S_def by blast
  qed
qed

lemma childrenMap_distinct:
  assumes "distinct (map uid (children c))" "x \<in> set (children c)"
  shows "childrenMap c (uid x) = Some x"
proof -
  have "distinct (map fst (rev (map (\<lambda>child. (uid child, child)) (children c))))"
    using assms(1) by (simp add: rev_map [symmetric] comp_def)
  moreover have "(uid x, x) \<in> set (rev (map (\<lambda>child. (uid child, child)) (children c)))"
    using assms(2) by auto
  ultimately show ?thesis
    unfolding childrenMap_def by (simp only: map_of_eq_Some_iff)
qed

lemma cm_holds_childrenMap:
  "distinct (map uid (children c)) \<Longrightarrow> set xs \<subseteq> set (children c) \<Longrightarrow> cm_holds (childrenMap c) xs"
  by (auto simp: cm_holds_def childrenMap_distinct)

text \<open>The path in the tree from the top level down to the node with a given uid.\<close>

fun ancestor_chain :: "NavigatorTree list \<Rightarrow> parent_key \<Rightarrow> int \<Rightarrow> NavigatorFlatItem list" where
  "ancestor_chain [] p v = []"
| "ancestor_chain (NavigatorTree u t pa ty ch # rest) p v =
     (if u = v
      then [\<lparr>uid = u, title = t, path = pa, type = ty, parent = p, childUIDs = map node_uid ch\<rparr>]
      else (case ancestor_chain ch (UID u) v of
              [] \<Rightarrow> ancestor_chain rest p v
            | x # xs \<Rightarrow>
                \<lparr>uid = u, title = t, path = pa, type = ty, parent = p, childUIDs = map node_uid ch\<rparr>
                  # x # xs))"

lemma ancestor_chain_absent:
  "v \<notin> uid ` set (flattenNestedData ts p) \<Longrightarrow> ancestor_chain ts p v = []"
  by (induction ts p rule: flattenNestedData.induct) (auto simp: image_Un)

lemma ancestor_chain_present:
  "v \<in> uid ` set (flattenNestedData ts p) \<Longrightarrow> ancestor_chain ts p v \<noteq> []"
  by (induction ts p rule: flattenNestedData.induct) (auto split: list.splits)

lemma ancestor_chain_subset:
  "set (ancestor_chain ts p v) \<subseteq> set (flattenNestedData ts p)"
  by (induction ts p rule: flattenNestedData.induct) (auto split: list.splits)

definition push_parent :: "parent_key \<Rightarrow> int list" where
  "push_parent p = (case p of INDEX_ROOT_KEY \<Rightarrow> [] | UID q \<Rightarrow> if q \<noteq> 0 then [q] else [])"

lemma getParents_loop_step:
  "cm v = Some obj \<Longrightarrow>
   getParents_loop cm (v # rest) arr = getParents_loop cm (push_parent (parent obj) @ rest) (obj # arr)"
  by (subst getParents_loop.simps) (simp add: push_parent_def split: parent_key.splits)

lemma getParents_loop_chain:
  assumes "cm_holds cm (flattenNestedData ts p)" "wf_sub ts p"
    "0 \<notin> uid ` set (flattenNestedData ts p)" "m \<in> set (flattenNestedData ts p)"
  shows "getParents_loop cm [uid m] arr
           = getParents_loop cm (push_parent p) (ancestor_chain ts p (uid m) @ arr)"
  using assms
proof (induction ts p arbitrary: arr rule: flattenNestedData.induct)
  case (1 p)
  then show ?case by simp
next
  case (2 u t pa ty ch sibs p)
  define item where
    "item = \<lparr>uid = u, title = t, path = pa, type = ty, parent = p, childUIDs = map node_uid ch\<rparr>"
  define below where "below = flattenNestedData ch (UID u)"
  define later where "later = flattenNestedData sibs p"
  have flat: "flattenNestedData (NavigatorTree u t pa ty ch # sibs) p = item # below @ later"
    by (simp add: item_def below_def later_def)
  have item: "uid item = u" "parent item = p"
    by (simp_all add: item_def)
  note w = wf_sub_Cons [OF "2.prems"(2), folded below_def later_def]
  have wch: "wf_sub ch (UID u)" and wsibs: "wf_sub sibs p"
    and ub: "u \<notin> uid ` set below" and ul: "u \<notin> uid ` set later"
    and bl: "uid ` set below \<inter> uid ` set later = {}"
    using w by simp_all
  have cm: "cm u = Some item" "cm_holds cm below" "cm_holds cm later"
    using "2.prems"(1) unfolding flat by (simp_all add: item)
  have z: "u \<noteq> 0" "0 \<notin> uid ` set below" "0 \<notin> uid ` set later"
    using "2.prems"(3) unfolding flat by (auto simp: item)
  have step: "getParents_loop cm [u] a = getParents_loop cm (push_parent p) (item # a)" for a
    using getParents_loop_step [of cm u item "[]" a] cm(1) by (simp add: item)
  from "2.prems"(4) consider (root) "m = item" | (below) "m \<in> set below"
    | (later) "m \<in> set later"
    unfolding flat by auto
  then show ?case
  proof cases
    case root
    then have "ancestor_chain (NavigatorTree u t pa ty ch # sibs) p (uid m) = [item]"
      by (simp add: item_def)
    then show ?thesis using step root item by simp
  next
    case below
    then have ne: "uid m \<noteq> u" using ub by auto
    have "ancestor_chain ch (UID u) (uid m) \<noteq> []"
      using below by (intro ancestor_chain_present) (auto simp: below_def)
    then have chain: "ancestor_chain (NavigatorTree u t pa ty ch # sibs) p (uid m)
        = item # ancestor_chain ch (UID u) (uid m)"
      using ne by (auto simp: item_def split: list.splits)
    have "getParents_loop cm [uid m] arr
        = getParents_loop cm (push_parent (UID u)) (ancestor_chain ch (UID u) (uid m) @ arr)"
      using "2.IH"(1) [OF cm(2) [unfolded below_def] wch z(2) [unfolded below_def]
          below [unfolded below_def]] .
    also have "\<dots> = getParents_loop cm [u] (ancestor_chain ch (UID u) (uid m) @ arr)"
      using z(1) by (simp add: push_parent_def)
    also have "\<dots> = getParents_loop cm (push_parent p)
        (item # ancestor_chain ch (UID u) (uid m) @ arr)"
      by (rule step)
    finally show ?thesis using chain by simp
  next
    case later
    then have ne: "uid m \<noteq> u" using ul by auto
    have "uid m \<notin> uid ` set (flattenNestedData ch (UID u))"
      using later bl by (auto simp: below_def)
    then have "ancestor_chain ch (UID u) (uid m) = []"
      by (rule ancestor_chain_absent)
    then have chain: "ancestor_chain (NavigatorTree u t pa ty ch # sibs) p (uid m)
        = ancestor_chain sibs p (uid m)"
      using ne by simp
    show ?thesis
      using "2.IH"(2) [OF cm(3) [unfolded later_def] wsibs z(3) [unfolded later_def]
          later [unfolded later_def]] chain by simp
  qed
qed

subsection \<open>The patch of a toggle and the unfiltered recompute\<close>


text \<open>The rule of the unfiltered recompute: the parent is the root key or is open.\<close>

definition shown :: "int set \<Rightarrow> NavigatorFlatItem \<Rightarrow> bool" where
  "shown opn x = (parent x = INDEX_ROOT_KEY \<or> openNodes_at opn (parent x))"

lemma shown_cong:
  "(\<And>v. parent x = UID v \<Longrightarrow> (v \<in> A) = (v \<in> B)) \<Longrightarrow> shown A x = shown B x"
  by (auto simp: shown_def openNodes_at_def split: parent_key.splits)

lemma closed_below:
  "\<not> (p = INDEX_ROOT_KEY \<or> openNodes_at opn p) \<Longrightarrow>
   \<forall>d \<in> set (flattenNestedData ts p). uid d \<in> opn \<longrightarrow> shown opn d \<Longrightarrow>
   uid ` set (flattenNestedData ts p) \<inter> opn = {}"
proof (induction ts p rule: flattenNestedData.induct)
  case (1 p)
  then show ?case by simp
next
  case (2 u t pa ty ch sibs p)
  have u: "u \<notin> opn"
    using "2.prems" by (auto simp: shown_def)
  then have "\<not> (UID u = INDEX_ROOT_KEY \<or> openNodes_at opn (UID u))"
    by (simp add: openNodes_at_def)
  from "2.IH"(1) [OF this] "2.IH"(2) [OF "2.prems"(1)] "2.prems"(2) u
  show ?case by (auto simp: image_Un)
qed

lemma findIndex_uid_append:
  "u \<notin> uid ` set A \<Longrightarrow> uid n = u \<Longrightarrow> findIndex_uid (A @ n # B) u = Some (length A)"
  by (induction A) auto

lemma splice_after:
  assumes "uid n \<notin> uid ` set A"
  shows "take (case findIndex_uid (A @ n # B) (uid n) of None \<Rightarrow> 0 | Some i \<Rightarrow> i + 1) (A @ n # B)
         @ I @ drop (case findIndex_uid (A @ n # B) (uid n) of None \<Rightarrow> 0 | Some i \<Rightarrow> i + 1) (A @ n # B)
       = A @ n # I @ B"
  using findIndex_uid_append [OF assms refl, of B] by simp

text \<open>A node \<open>n\<close> of the flat list with the nodes \<open>D\<close> below it.\<close>

definition subtree_at ::
  "NavigatorFlatItem list \<Rightarrow> NavigatorFlatItem list \<Rightarrow> NavigatorFlatItem \<Rightarrow>
   NavigatorFlatItem list \<Rightarrow> NavigatorFlatItem list \<Rightarrow> bool" where
  "subtree_at xs pre n D post =
     (xs = pre @ n # D @ post \<and> distinct (map uid xs)
      \<and> (\<forall>d \<in> set D. parent d \<in> UID ` uid ` set (n # D))
      \<and> (\<forall>x \<in> set pre \<union> set post \<union> {n}. parent x \<notin> UID ` uid ` set (n # D)))"

lemma subtree_at_uids:
  assumes "subtree_at xs pre n D post"
  shows "uid n \<notin> uid ` set D" "uid n \<notin> uid ` set pre"
    "uid ` set pre \<inter> uid ` set D = {}" "uid ` set post \<inter> uid ` set D = {}"
proof -
  have d: "distinct (map uid pre @ uid n # map uid D @ map uid post)"
    using assms unfolding subtree_at_def by clarsimp
  show "uid n \<notin> uid ` set D" "uid n \<notin> uid ` set pre"
    "uid ` set pre \<inter> uid ` set D = {}" "uid ` set post \<inter> uid ` set D = {}"
    using d by auto
qed

lemma filter_eq_Nil: "(\<And>x. x \<in> set xs \<Longrightarrow> \<not> P x) \<Longrightarrow> filter P xs = []"
  by (simp add: filter_empty_conv)

lemma filter_eq_all: "(\<And>x. x \<in> set xs \<Longrightarrow> P x) \<Longrightarrow> filter P xs = xs"
  by (simp add: filter_id_conv)

lemma filter_same: "(\<And>x. x \<in> set xs \<Longrightarrow> P x = Q x) \<Longrightarrow> filter P xs = filter Q xs"
  by (rule filter_cong) simp_all

lemma shown_outside:
  assumes "subtree_at xs pre n D post" "x \<in> set pre \<union> set post \<union> {n}"
    "\<And>v. v \<notin> uid ` set (n # D) \<Longrightarrow> (v \<in> A) = (v \<in> B)"
  shows "shown A x = shown B x"
proof (rule shown_cong)
  fix v assume "parent x = UID v"
  with assms(1,2) have "v \<notin> uid ` set (n # D)"
    unfolding subtree_at_def by blast
  then show "(v \<in> A) = (v \<in> B)" by (rule assms(3))
qed

lemma recompute_split:
  assumes "subtree_at xs pre n D post"
  shows "filter (shown A) xs
       = filter (shown A) pre @ (if shown A n then [n] else []) @ filter (shown A) D
         @ filter (shown A) post"
  using assms by (simp add: subtree_at_def)

lemma recompute_outside:
  assumes "subtree_at xs pre n D post"
    "\<And>v. v \<notin> uid ` set (n # D) \<Longrightarrow> (v \<in> A) = (v \<in> B)"
  shows "filter (shown A) pre = filter (shown B) pre"
    and "filter (shown A) post = filter (shown B) post"
    and "shown A n = shown B n"
proof -
  show "filter (shown A) pre = filter (shown B) pre"
    by (rule filter_same) (rule shown_outside [OF assms(1)], simp, rule assms(2))
  show "filter (shown A) post = filter (shown B) post"
    by (rule filter_same) (rule shown_outside [OF assms(1)], simp, rule assms(2))
  show "shown A n = shown B n"
    by (rule shown_outside [OF assms(1)], simp, rule assms(2))
qed

lemma below_hidden:
  assumes "subtree_at xs pre n D post" "uid ` set (n # D) \<inter> A = {}"
  shows "filter (shown A) D = []"
proof (rule filter_eq_Nil)
  fix d assume "d \<in> set D"
  with assms(1) have "parent d \<in> UID ` uid ` set (n # D)"
    unfolding subtree_at_def by blast
  with assms(2) show "\<not> shown A d"
    by (auto simp: shown_def openNodes_at_def)
qed

lemma below_all_shown:
  assumes "subtree_at xs pre n D post" "uid ` set (n # D) \<subseteq> A"
  shows "filter (shown A) D = D"
proof (rule filter_eq_all)
  fix d assume "d \<in> set D"
  with assms(1) have "parent d \<in> UID ` uid ` set (n # D)"
    unfolding subtree_at_def by blast
  with assms(2) show "shown A d"
    by (auto simp: shown_def openNodes_at_def)
qed

lemma below_children_shown:
  assumes "subtree_at xs pre n D post" "uid ` set D \<inter> A = {}"
  shows "filter (shown (insert (uid n) A)) D = filter (\<lambda>d. parent d = UID (uid n)) D"
proof (rule filter_same)
  fix d assume d: "d \<in> set D"
  with assms(1) have "parent d \<in> UID ` uid ` set (n # D)"
    unfolding subtree_at_def by blast
  then obtain v where v: "parent d = UID v" "v = uid n \<or> v \<in> uid ` set D" by auto
  have "uid n \<notin> uid ` set D"
    by (rule subtree_at_uids(1) [OF assms(1)])
  with v assms(2) show "shown (insert (uid n) A) d = (parent d = UID (uid n))"
    by (auto simp: shown_def openNodes_at_def)
qed

lemma not_in_below:
  assumes "subtree_at xs pre n D post" "x \<in> set pre \<union> set post \<union> {n}"
  shows "x \<notin> set D"
proof
  assume "x \<in> set D"
  then have "uid x \<in> uid ` set D" by simp
  moreover have "uid x \<notin> uid ` set D"
    using subtree_at_uids [OF assms(1)] assms(2) by blast
  ultimately show False by simp
qed

lemma exclude_below:
  assumes "subtree_at xs pre n D post"
  shows "filter (\<lambda>item. item \<notin> set D) (filter (shown A) xs)
       = filter (shown A) pre @ (if shown A n then [n] else []) @ filter (shown A) post"
proof -
  have "filter (\<lambda>item. item \<notin> set D) (filter (shown A) pre) = filter (shown A) pre"
    by (rule filter_eq_all) (use not_in_below [OF assms] in auto)
  moreover have "filter (\<lambda>item. item \<notin> set D) (filter (shown A) post) = filter (shown A) post"
    by (rule filter_eq_all) (use not_in_below [OF assms] in auto)
  moreover have "filter (\<lambda>item. item \<notin> set D) (filter (shown A) D) = []"
    by (rule filter_eq_Nil) auto
  moreover have "n \<notin> set D" using not_in_below [OF assms] by simp
  ultimately show ?thesis
    unfolding recompute_split [OF assms] by simp
qed

text \<open>The flat list of the component is the flattening of a tree that keeps the invariants.\<close>

definition card_tree :: "NavigatorCard \<Rightarrow> NavigatorTree list \<Rightarrow> bool" where
  "card_tree c forest =
     (children c = flattenNestedData forest INDEX_ROOT_KEY \<and> flat_tree_invariants forest)"

lemma card_tree_distinct: "card_tree c forest \<Longrightarrow> distinct (map uid (children c))"
  by (simp add: card_tree_def flat_tree_invariants_def)

lemma card_tree_wf_sub: "card_tree c forest \<Longrightarrow> wf_sub forest INDEX_ROOT_KEY"
  by (auto simp: card_tree_def flat_tree_invariants_def wf_sub_def)

lemma card_tree_uid_inj:
  "card_tree c forest \<Longrightarrow> x \<in> set (children c) \<Longrightarrow> y \<in> set (children c) \<Longrightarrow>
   uid x = uid y \<Longrightarrow> x = y"
  using card_tree_distinct [of c forest] by (auto simp: distinct_map inj_on_def)

lemma node_subtree:
  assumes "card_tree c forest" "n \<in> set (children c)"
  obtains pre ch post where
    "subtree_at (children c) pre n (flattenNestedData ch (UID (uid n))) post"
    "childUIDs n = map node_uid ch" "wf_sub ch (UID (uid n))"
proof -
  have n: "n \<in> set (flattenNestedData forest INDEX_ROOT_KEY)"
    using assms by (simp add: card_tree_def)
  from flatten_decompose [OF card_tree_wf_sub [OF assms(1)] n] obtain pre ch post where
    d: "flattenNestedData forest INDEX_ROOT_KEY
          = pre @ n # flattenNestedData ch (UID (uid n)) @ post"
    and c: "childUIDs n = map node_uid ch" and w: "wf_sub ch (UID (uid n))"
    and out: "\<forall>x \<in> set pre \<union> set post \<union> {n}.
               parent x \<notin> UID ` uid ` set (n # flattenNestedData ch (UID (uid n)))"
    by blast
  have "\<forall>d \<in> set (flattenNestedData ch (UID (uid n))).
          parent d \<in> UID ` uid ` set (n # flattenNestedData ch (UID (uid n)))"
    using parent_flatten [of _ ch "UID (uid n)"] by auto
  with d out assms(1) have
    "subtree_at (children c) pre n (flattenNestedData ch (UID (uid n))) post"
    unfolding subtree_at_def card_tree_def flat_tree_invariants_def by simp
  then show thesis using c w by (rule that)
qed

lemma subtree_at_subset:
  "subtree_at xs pre n D post \<Longrightarrow> set (n # D) \<subseteq> set xs"
  by (auto simp: subtree_at_def)

lemma getAllChildren_subtree:
  assumes "card_tree c forest"
    "subtree_at (children c) pre n (flattenNestedData ch (UID (uid n))) post"
    "childUIDs n = map node_uid ch"
  shows "getAllChildren c (uid n) = Some (Inr (n # flattenNestedData ch (UID (uid n))))"
proof -
  let ?D = "flattenNestedData ch (UID (uid n))"
  have sub: "set (n # ?D) \<subseteq> set (children c)"
    by (rule subtree_at_subset [OF assms(2)])
  have n: "childrenMap c (uid n) = Some n"
    using sub by (intro childrenMap_distinct card_tree_distinct [OF assms(1)]) simp
  have D: "cm_holds (childrenMap c) ?D"
    using sub by (intro cm_holds_childrenMap card_tree_distinct [OF assms(1)]) simp
  have "getAllChildren c (uid n) = getAllChildren_loop (childrenMap c) (map node_uid ch @ []) [n]"
    unfolding getAllChildren_def using n assms(3)
    by (subst getAllChildren_loop.simps) simp
  also have "\<dots> = getAllChildren_loop (childrenMap c) [] ([n] @ ?D)"
    by (rule getAllChildren_loop_flatten [OF D])
  also have "\<dots> = Some (Inr (n # ?D))"
    by (subst getAllChildren_loop.simps) simp
  finally show ?thesis .
qed

text \<open>
  The nodes to render are those of the unfiltered recompute, and the parent of every
  open node is open or the root.
\<close>

definition open_state_consistent :: "NavigatorCard \<Rightarrow> bool" where
  "open_state_consistent c =
     (nodesToRender c = filter (shown (openNodes c)) (children c)
      \<and> (\<forall>x \<in> set (children c). uid x \<in> openNodes c \<longrightarrow> shown (openNodes c) x))"

lemma shown_mono: "A \<subseteq> B \<Longrightarrow> shown A x \<Longrightarrow> shown B x"
  by (auto simp: shown_def openNodes_at_def split: parent_key.splits)

lemma nothing_open_below:
  assumes "subtree_at (children c) pre n (flattenNestedData ch (UID (uid n))) post"
    "open_state_consistent c" "uid n \<notin> openNodes c"
  shows "uid ` set (n # flattenNestedData ch (UID (uid n))) \<inter> openNodes c = {}"
proof -
  have "\<not> (UID (uid n) = INDEX_ROOT_KEY \<or> openNodes_at (openNodes c) (UID (uid n)))"
    using assms(3) by (simp add: openNodes_at_def)
  moreover have "\<forall>d \<in> set (flattenNestedData ch (UID (uid n))).
      uid d \<in> openNodes c \<longrightarrow> shown (openNodes c) d"
    using assms(2) subtree_at_subset [OF assms(1)]
    unfolding open_state_consistent_def by auto
  ultimately have "uid ` set (flattenNestedData ch (UID (uid n))) \<inter> openNodes c = {}"
    by (rule closed_below)
  with assms(3) show ?thesis by auto
qed

lemma patch_close:
  assumes "subtree_at xs pre n D post"
  shows "filter (\<lambda>item. item \<notin> set D) (filter (shown A) xs)
       = filter (shown (A - uid ` set (n # D))) xs"
proof -
  let ?B = "A - uid ` set (n # D)"
  have same: "(v \<in> ?B) = (v \<in> A)" if "v \<notin> uid ` set (n # D)" for v
    using that by blast
  have "filter (shown ?B) D = []"
    by (rule below_hidden [OF assms]) blast
  then have "filter (shown ?B) xs
      = filter (shown A) pre @ (if shown A n then [n] else []) @ filter (shown A) post"
    unfolding recompute_split [OF assms, of ?B]
    using recompute_outside [OF assms, of ?B A, OF same] by simp
  then show ?thesis
    by (simp only: exclude_below [OF assms])
qed

lemma patch_open:
  assumes "subtree_at xs pre n D post" "uid ` set (n # D) \<inter> A = {}" "shown A n"
  shows "filter (shown A) xs = filter (shown A) pre @ n # filter (shown A) post"
    and "filter (shown (insert (uid n) A)) xs
       = filter (shown A) pre @ n # filter (\<lambda>d. parent d = UID (uid n)) D
         @ filter (shown A) post"
    and "filter (shown (A \<union> uid ` set (n # D))) xs
       = filter (shown A) pre @ n # D @ filter (shown A) post"
proof -
  show "filter (shown A) xs = filter (shown A) pre @ n # filter (shown A) post"
    unfolding recompute_split [OF assms(1), of A]
    using below_hidden [OF assms(1,2)] assms(3) by simp
next
  let ?B = "insert (uid n) A"
  have same: "(v \<in> ?B) = (v \<in> A)" if "v \<notin> uid ` set (n # D)" for v
    using that by auto
  have "uid ` set D \<inter> A = {}" using assms(2) by auto
  from below_children_shown [OF assms(1) this]
  show "filter (shown ?B) xs
       = filter (shown A) pre @ n # filter (\<lambda>d. parent d = UID (uid n)) D
         @ filter (shown A) post"
    unfolding recompute_split [OF assms(1), of ?B]
    using recompute_outside [OF assms(1), of ?B A, OF same] assms(3) by simp
next
  let ?B = "A \<union> uid ` set (n # D)"
  have same: "(v \<in> ?B) = (v \<in> A)" if "v \<notin> uid ` set (n # D)" for v
    using that by auto
  have "filter (shown ?B) D = D"
    by (rule below_all_shown [OF assms(1)]) blast
  then show "filter (shown ?B) xs = filter (shown A) pre @ n # D @ filter (shown A) post"
    unfolding recompute_split [OF assms(1), of ?B]
    using recompute_outside [OF assms(1), of ?B A, OF same] assms(3) by simp
qed

text \<open>The state that a full recompute with the open nodes \<open>opn\<close> leaves.\<close>

definition recomputed :: "NavigatorCard \<Rightarrow> int set \<Rightarrow> NavigatorCard" where
  "recomputed c opn =
     persistState (c\<lparr>openNodes := opn, nodesToRender := filter (shown opn) (children c)\<rparr>)"

lemma recomputed_eqI:
  "nodesToRender c' = filter (shown opn) (children c) \<Longrightarrow>
   persistState (c\<lparr>openNodes := opn, nodesToRender := nodesToRender c'\<rparr>) = recomputed c opn"
  by (simp add: recomputed_def)

lemma toggle_close:
  assumes ct: "card_tree c forest"
    and v: "nodesToRender c = filter (shown (openNodes c)) (children c)"
    and sub: "subtree_at (children c) pre n (flattenNestedData ch (UID (uid n))) post"
    and ch: "childUIDs n = map node_uid ch"
    and opn: "uid n \<in> openNodes c"
  shows "toggle c n = Some (Inr (recomputed c
           (openNodes c - uid ` set (n # flattenNestedData ch (UID (uid n))))))"
    and "toggleFullTree c n = Some (Inr (recomputed c
           (openNodes c - uid ` set (n # flattenNestedData ch (UID (uid n))))))"
proof -
  let ?D = "flattenNestedData ch (UID (uid n))"
  let ?O = "openNodes c - uid ` set (n # ?D)"
  have g: "getAllChildren c (uid n) = Some (Inr (n # ?D))"
    by (rule getAllChildren_subtree [OF ct sub ch])
  have p: "filter (\<lambda>item. item \<notin> set ?D) (nodesToRender c) = filter (shown ?O) (children c)"
    unfolding v by (rule patch_close [OF sub])
  have a: "augmentRenderNodes (c\<lparr>openNodes := ?O\<rparr>) (uid n) [] ?D = Inr (recomputed c ?O)"
  proof (cases "?D = []")
    case True
    with p have "nodesToRender c = filter (shown ?O) (children c)" by simp
    then have "c\<lparr>openNodes := ?O\<rparr>
        = c\<lparr>openNodes := ?O, nodesToRender := filter (shown ?O) (children c)\<rparr>"
      by (metis NavigatorCard.surjective NavigatorCard.update_convs(8,9))
    with True show ?thesis
      by (simp add: augmentRenderNodes_def recomputed_def)
  next
    case False
    then show ?thesis
      using p by (simp add: augmentRenderNodes_def recomputed_def)
  qed
  show "toggle c n = Some (Inr (recomputed c ?O))"
    using opn g a by (simp add: toggle_def)
  show "toggleFullTree c n = Some (Inr (recomputed c ?O))"
    using opn g a by (simp add: toggleFullTree_def)
qed

lemma same_nodesToRender:
  "nodesToRender c = v \<Longrightarrow> c\<lparr>openNodes := opn\<rparr> = c\<lparr>openNodes := opn, nodesToRender := v\<rparr>"
  by (metis NavigatorCard.surjective NavigatorCard.update_convs(8,9))

lemma toggle_open:
  assumes ct: "card_tree c forest"
    and cons: "open_state_consistent c"
    and sub: "subtree_at (children c) pre n (flattenNestedData ch (UID (uid n))) post"
    and ch: "childUIDs n = map node_uid ch"
    and w: "wf_sub ch (UID (uid n))"
    and cl: "uid n \<notin> openNodes c"
    and sh: "shown (openNodes c) n"
  shows "toggle c n = Some (Inr (recomputed c (insert (uid n) (openNodes c))))"
    and "toggleFullTree c n = Some (Inr (recomputed c
           (openNodes c \<union> uid ` set (n # flattenNestedData ch (UID (uid n))))))"
proof -
  let ?D = "flattenNestedData ch (UID (uid n))"
  let ?A = "filter (shown (openNodes c)) pre"
  let ?B = "filter (shown (openNodes c)) post"
  let ?R = "root_items ch (UID (uid n))"
  have v: "nodesToRender c = filter (shown (openNodes c)) (children c)"
    using cons by (simp add: open_state_consistent_def)
  have none: "uid ` set (n # ?D) \<inter> openNodes c = {}"
    by (rule nothing_open_below [OF sub cons cl])
  note po = patch_open [OF sub none sh]
  have vs: "nodesToRender c = ?A @ n # ?B"
    unfolding v by (rule po(1))
  have nA: "uid n \<notin> uid ` set ?A"
    using subtree_at_uids(2) [OF sub] by auto
  have sp: "take (case findIndex_uid (nodesToRender c) (uid n) of None \<Rightarrow> 0 | Some i \<Rightarrow> i + 1)
              (nodesToRender c) @ I
            @ drop (case findIndex_uid (nodesToRender c) (uid n) of None \<Rightarrow> 0 | Some i \<Rightarrow> i + 1)
              (nodesToRender c) = ?A @ n # I @ ?B" for I
    unfolding vs by (rule splice_after [OF nA])
  have D: "cm_holds (childrenMap c) ?D"
    using subtree_at_subset [OF sub]
    by (intro cm_holds_childrenMap card_tree_distinct [OF ct]) simp
  have incl: "map (childrenMap c) (childUIDs n) = map Some ?R"
    unfolding ch by (rule map_cm_root_items [OF D])
  have roots: "filter (\<lambda>d. parent d = UID (uid n)) ?D = ?R"
    by (rule filter_parent_flatten [OF w])
  show "toggle c n = Some (Inr (recomputed c (insert (uid n) (openNodes c))))"
  proof (cases "?R = []")
    case True
    have "nodesToRender c = filter (shown (insert (uid n) (openNodes c))) (children c)"
      unfolding po(2) roots vs using True by simp
    from same_nodesToRender [OF this] True incl cl show ?thesis
      by (simp add: toggle_def augmentRenderNodes_def recomputed_def)
  next
    case False
    have "?A @ n # ?R @ ?B = filter (shown (insert (uid n) (openNodes c))) (children c)"
      unfolding po(2) roots by simp
    with False incl cl sp [of ?R] show ?thesis
      by (simp add: toggle_def augmentRenderNodes_def recomputed_def comp_def)
  qed
  have g: "getAllChildren c (uid n) = Some (Inr (n # ?D))"
    by (rule getAllChildren_subtree [OF ct sub ch])
  show "toggleFullTree c n = Some (Inr (recomputed c (openNodes c \<union> uid ` set (n # ?D))))"
  proof (cases "?D = []")
    case True
    have "nodesToRender c = filter (shown (openNodes c \<union> uid ` set (n # ?D))) (children c)"
      unfolding po(3) vs using True by simp
    from same_nodesToRender [OF this] True g cl show ?thesis
      by (simp add: toggleFullTree_def augmentRenderNodes_def recomputed_def)
  next
    case False
    have "?A @ n # ?D @ ?B = filter (shown (openNodes c \<union> uid ` set (n # ?D))) (children c)"
      unfolding po(3) by simp
    with False g cl sp [of ?D] show ?thesis
      by (simp add: toggleFullTree_def augmentRenderNodes_def recomputed_def comp_def)
  qed
qed


lemma recomputed_simps [simp]:
  "children (recomputed c opn) = children c"
  "openNodes (recomputed c opn) = opn"
  "nodesToRender (recomputed c opn) = filter (shown opn) (children c)"
  "debouncedFilter (recomputed c opn) = debouncedFilter c"
  "selectedTags (recomputed c opn) = selectedTags c"
  by (simp_all add: recomputed_def persistState_def)

lemma card_tree_recomputed [simp]: "card_tree (recomputed c opn) forest = card_tree c forest"
  by (simp add: card_tree_def)

lemma hasFilter_recomputed [simp]: "hasFilter (recomputed c opn) = hasFilter c"
  by (simp add: hasFilter_def)

lemma subtree_at_cases:
  "subtree_at xs pre n D post \<Longrightarrow> x \<in> set xs \<Longrightarrow>
   x \<in> set pre \<union> set post \<union> {n} \<or> x \<in> set D"
  by (auto simp: subtree_at_def)

lemma consistent_after_close:
  assumes cons: "open_state_consistent c"
    and sub: "subtree_at (children c) pre n D post"
  shows "open_state_consistent (recomputed c (openNodes c - uid ` set (n # D)))"
proof -
  let ?O = "openNodes c - uid ` set (n # D)"
  have "shown ?O x" if x: "x \<in> set (children c)" and o: "uid x \<in> ?O" for x
  proof -
    from o have "x \<notin> set D" by auto
    with subtree_at_cases [OF sub x] have out: "x \<in> set pre \<union> set post \<union> {n}" by simp
    have "shown ?O x = shown (openNodes c) x"
      by (rule shown_outside [OF sub out]) blast
    moreover have "shown (openNodes c) x"
      using cons x o by (simp add: open_state_consistent_def)
    ultimately show ?thesis by simp
  qed
  then show ?thesis by (simp add: open_state_consistent_def)
qed

lemma consistent_after_open:
  assumes ct: "card_tree c forest"
    and cons: "open_state_consistent c"
    and n: "n \<in> set (children c)"
    and sh: "shown (openNodes c) n"
  shows "open_state_consistent (recomputed c (insert (uid n) (openNodes c)))"
proof -
  let ?O = "insert (uid n) (openNodes c)"
  have "shown ?O x" if x: "x \<in> set (children c)" and o: "uid x \<in> ?O" for x
  proof (cases "uid x = uid n")
    case True
    then have "x = n" by (rule card_tree_uid_inj [OF ct x n])
    with sh show ?thesis by (auto intro: shown_mono [of "openNodes c"])
  next
    case False
    with o cons x have "shown (openNodes c) x"
      by (simp add: open_state_consistent_def)
    then show ?thesis by (auto intro: shown_mono [of "openNodes c"])
  qed
  then show ?thesis by (simp add: open_state_consistent_def)
qed

lemma consistent_after_open_all:
  assumes ct: "card_tree c forest"
    and cons: "open_state_consistent c"
    and sub: "subtree_at (children c) pre n D post"
    and sh: "shown (openNodes c) n"
  shows "open_state_consistent (recomputed c (openNodes c \<union> uid ` set (n # D)))"
proof -
  let ?O = "openNodes c \<union> uid ` set (n # D)"
  have "shown ?O x" if x: "x \<in> set (children c)" and o: "uid x \<in> ?O" for x
  proof (cases "uid x \<in> openNodes c")
    case True
    with cons x have "shown (openNodes c) x"
      by (simp add: open_state_consistent_def)
    then show ?thesis by (auto intro: shown_mono [of "openNodes c"])
  next
    case False
    with o obtain y where y: "y \<in> set (n # D)" "uid x = uid y" by auto
    with subtree_at_subset [OF sub] have "y \<in> set (children c)" by auto
    with y have xy: "x \<in> set (n # D)"
      using card_tree_uid_inj [OF ct x, of y] by simp
    show ?thesis
    proof (cases "x = n")
      case True
      with sh show ?thesis by (auto intro: shown_mono [of "openNodes c"])
    next
      case False
      with xy have "x \<in> set D" by simp
      with sub have "parent x \<in> UID ` uid ` set (n # D)"
        unfolding subtree_at_def by blast
      then show ?thesis by (auto simp: shown_def openNodes_at_def)
    qed
  qed
  then show ?thesis by (simp add: open_state_consistent_def)
qed

subsection \<open>Sequences of toggles\<close>

text \<open>
  The events \<^verbatim>\<open>toggle\<close> and \<^verbatim>\<open>toggle-full\<close> that an item of the rendered list emits,
  with their handlers.
\<close>

datatype item_event = Toggle NavigatorFlatItem | ToggleFull NavigatorFlatItem

fun event_item :: "item_event \<Rightarrow> NavigatorFlatItem" where
  "event_item (Toggle n) = n"
| "event_item (ToggleFull n) = n"

fun handle_event :: "NavigatorCard \<Rightarrow> item_event \<Rightarrow> (error + NavigatorCard) option" where
  "handle_event c (Toggle n) = toggle c n"
| "handle_event c (ToggleFull n) = toggleFullTree c n"

fun handle_events :: "NavigatorCard \<Rightarrow> item_event list \<Rightarrow> (error + NavigatorCard) option" where
  "handle_events c [] = Some (Inr c)"
| "handle_events c (e # es) =
     (case handle_event c e of
        Some (Inr c') \<Rightarrow> handle_events c' es
      | r \<Rightarrow> r)"

text \<open>Every event of the sequence comes from an item that is rendered when it is emitted.\<close>

fun events_of_rendered_items :: "NavigatorCard \<Rightarrow> item_event list \<Rightarrow> bool" where
  "events_of_rendered_items c [] = True"
| "events_of_rendered_items c (e # es) =
     (event_item e \<in> set (nodesToRender c)
      \<and> (case handle_event c e of
            Some (Inr c') \<Rightarrow> events_of_rendered_items c' es
          | _ \<Rightarrow> False))"

lemma handle_event_consistent:
  assumes ct: "card_tree c forest"
    and cons: "open_state_consistent c"
    and r: "event_item e \<in> set (nodesToRender c)"
  shows "\<exists>opn. handle_event c e = Some (Inr (recomputed c opn))
           \<and> open_state_consistent (recomputed c opn)"
proof -
  define n where "n = event_item e"
  have v: "nodesToRender c = filter (shown (openNodes c)) (children c)"
    using cons by (simp add: open_state_consistent_def)
  with r have n: "n \<in> set (children c)" and sh: "shown (openNodes c) n"
    by (simp_all add: n_def)
  from node_subtree [OF ct n] obtain pre ch post where
    sub: "subtree_at (children c) pre n (flattenNestedData ch (UID (uid n))) post"
    and ch: "childUIDs n = map node_uid ch" and w: "wf_sub ch (UID (uid n))"
    by blast
  let ?D = "flattenNestedData ch (UID (uid n))"
  show ?thesis
  proof (cases "uid n \<in> openNodes c")
    case True
    have "handle_event c e = Some (Inr (recomputed c (openNodes c - uid ` set (n # ?D))))"
      using toggle_close [OF ct v sub ch True] by (cases e) (simp_all add: n_def)
    with consistent_after_close [OF cons sub] show ?thesis by blast
  next
    case False
    note t = toggle_open [OF ct cons sub ch w False sh]
    show ?thesis
    proof (cases e)
      case (Toggle m)
      then have "handle_event c e = Some (Inr (recomputed c (insert (uid n) (openNodes c))))"
        using t(1) by (simp add: n_def)
      with consistent_after_open [OF ct cons n sh] show ?thesis by blast
    next
      case (ToggleFull m)
      then have "handle_event c e
          = Some (Inr (recomputed c (openNodes c \<union> uid ` set (n # ?D))))"
        using t(2) by (simp add: n_def)
      with consistent_after_open_all [OF ct cons sub sh] show ?thesis by blast
    qed
  qed
qed

lemma handle_events_consistent:
  assumes "card_tree c forest" "open_state_consistent c" "events_of_rendered_items c es"
  shows "\<exists>c'. handle_events c es = Some (Inr c') \<and> open_state_consistent c'
           \<and> card_tree c' forest \<and> hasFilter c' = hasFilter c"
  using assms
proof (induction es arbitrary: c)
  case Nil
  then show ?case by simp
next
  case (Cons e es)
  from Cons.prems(3) have r: "event_item e \<in> set (nodesToRender c)" by simp
  from handle_event_consistent [OF Cons.prems(1,2) r] obtain opn where
    h: "handle_event c e = Some (Inr (recomputed c opn))"
    and c: "open_state_consistent (recomputed c opn)"
    by blast
  from Cons.prems(3) h have "events_of_rendered_items (recomputed c opn) es" by simp
  from Cons.IH [OF _ c this] Cons.prems(1) h show ?case by simp
qed

text \<open>In the unfiltered recompute the callback is \<open>shown\<close>.\<close>

lemma generateNodesToRender_unfiltered:
  assumes "\<not> hasFilter c"
  shows "generateNodesToRender shp search c = Some (Inr (recomputed c (openNodes c)))"
proof -
  have "generateNodesToRender_callback False (openNodes c) cm acm fc = shown (openNodes c)"
    for cm acm fc
    by (rule ext) (simp add: generateNodesToRender_callback_def shown_def)
  moreover have "c\<lparr>openNodes := openNodes c, nodesToRender := v\<rparr> = c\<lparr>nodesToRender := v\<rparr>" for v
    by simp
  ultimately show ?thesis
    using assms by (simp add: generateNodesToRender_def filteredChildren_def recomputed_def)
qed

text \<open>
  The watcher of \<^verbatim>\<open>nodeChangeDeps\<close>: when the value has changed from what it was in the
  state \<open>c_old\<close>, \<^verbatim>\<open>trackOpenNodes\<close> is called with the new and the old value.
\<close>

definition nodeChangeDeps_watcher ::
  "(string \<Rightarrow> string) \<Rightarrow> (string \<Rightarrow> string \<Rightarrow> string \<Rightarrow> nat \<Rightarrow> nat option) \<Rightarrow>
   NavigatorCard \<Rightarrow> NavigatorCard \<Rightarrow> (error + NavigatorCard) option" where
  "nodeChangeDeps_watcher shp search c_old c =
     (case nodeChangeDeps shp search c_old of
        Inl e \<Rightarrow> Some (Inl e)
      | Inr old \<Rightarrow>
          (case nodeChangeDeps shp search c of
             Inl e \<Rightarrow> Some (Inl e)
           | Inr now \<Rightarrow> trackOpenNodes shp search c now (Some old)))"

text \<open>
  C1, amended. In unfiltered mode, from a state whose rendered list is the recompute
  of its open nodes and in which the parent of every open node is open or the root,
  every finite sequence of toggle and toggleFullTree events of rendered items is
  handled without an error and leaves a rendered list that the full recompute
  reproduces from the resulting open nodes, element for element and in order.
\<close>

theorem patch_equals_recompute_unfiltered:
  assumes "card_tree c forest" "\<not> hasFilter c" "open_state_consistent c"
    "events_of_rendered_items c es"
  shows "\<exists>c' c''. handle_events c es = Some (Inr c')
           \<and> generateNodesToRender shp search c' = Some (Inr c'')
           \<and> nodesToRender c' = nodesToRender c'' \<and> openNodes c'' = openNodes c'"
proof -
  from handle_events_consistent [OF assms(1,3,4)] obtain c' where
    h: "handle_events c es = Some (Inr c')" and c: "open_state_consistent c'"
    and f: "hasFilter c' = hasFilter c"
    by blast
  from f assms(2) have
    "generateNodesToRender shp search c' = Some (Inr (recomputed c' (openNodes c')))"
    by (simp add: generateNodesToRender_unfiltered)
  moreover have "nodesToRender c' = nodesToRender (recomputed c' (openNodes c'))"
    using c by (simp add: open_state_consistent_def)
  ultimately show ?thesis using h by auto
qed

definition scenario_forest :: "NavigatorTree list" where
  "scenario_forest = [tree_A, tree_B']"

definition scenario_card :: NavigatorCard where
  "scenario_card =
     new_card ''T'' (flattenNestedData scenario_forest INDEX_ROOT_KEY) [''/b'', ''/b/c'']
       empty_storage"

lemmas scenario_defs =
  scenario_card_def scenario_forest_def new_card_def empty_storage_def
  tree_A_def tree_B_def tree_B'_def tree_C_def tree_D_def
  item_A_def item_B_def item_B'_def item_C_def item_D_def

lemmas method_defs =
  childrenMap_def getAllChildren_def getAllChildren_loop.simps getParents_def
  getParents_loop.simps toggle_def toggleFullTree_def augmentRenderNodes_def persistState_def
  recomputed_def shown_def openNodes_at_def childrenMap_at_def hasFilter_def

lemma scenario_card_tree:
  "card_tree (recomputed scenario_card {2, 3}) scenario_forest"
  by (simp add: card_tree_def flat_tree_invariants_def scenario_defs)

lemma scenario_consistent:
  "open_state_consistent (recomputed scenario_card {2, 3})"
  by (simp add: open_state_consistent_def scenario_defs shown_def openNodes_at_def)

lemma scenario_events:
  "events_of_rendered_items (recomputed scenario_card {2, 3})
     [Toggle item_B', ToggleFull item_B', Toggle item_C, Toggle item_B']"
  by (simp add: scenario_defs method_defs)

theorem patch_equals_recompute_unfiltered_witness:
  "card_tree (recomputed scenario_card {2, 3}) scenario_forest
   \<and> \<not> hasFilter (recomputed scenario_card {2, 3})
   \<and> open_state_consistent (recomputed scenario_card {2, 3})
   \<and> events_of_rendered_items (recomputed scenario_card {2, 3})
         [Toggle item_B', ToggleFull item_B', Toggle item_C, Toggle item_B']
   \<and> (\<exists>c' c''. handle_events (recomputed scenario_card {2, 3})
                    [Toggle item_B', ToggleFull item_B', Toggle item_C, Toggle item_B']
                  = Some (Inr c')
           \<and> generateNodesToRender (\<lambda>f. f) literal_search c' = Some (Inr c'')
           \<and> nodesToRender c' = nodesToRender c'' \<and> openNodes c'' = openNodes c')"
proof -
  have f: "\<not> hasFilter (recomputed scenario_card {2, 3})"
    by (simp add: hasFilter_def scenario_defs)
  from patch_equals_recompute_unfiltered
         [OF scenario_card_tree f scenario_consistent scenario_events]
       scenario_card_tree f scenario_consistent scenario_events
  show ?thesis by blast
qed

lemmas track_defs =
  restorePersistedState_def trackOpenNodes_def nodeChangeDeps_def nodeChangeDeps_watcher_def
  activePathChildren_def generateNodesToRender_def generateNodesToRender_callback_def
  filteredChildren_def filteredChildren_callback_def filterPattern_def

text \<open>
  C1 as it is written fails in filtered mode. On the tree A, B with C below B, the tag
  filter Tutorials matches B and C; after the filter change B is open and B, C are
  rendered. Toggling B closes it and takes C out of the rendered list, while a full
  recompute from the resulting open nodes and the same filter renders the match C
  again.
\<close>

theorem patch_differs_from_recompute_filtered_counterexample:
  "(case restorePersistedState (\<lambda>f. f) literal_search
            (new_card ''T'' (flattenNestedData [tree_A, tree_B] INDEX_ROOT_KEY) [] empty_storage) of
      Some (Inr m) \<Rightarrow>
        (case nodeChangeDeps_watcher (\<lambda>f. f) literal_search m
                (m\<lparr>selectedTags := [FILTER_TAGS_tutorials]\<rparr>) of
           Some (Inr s1) \<Rightarrow>
             (case toggle s1 item_B of
                Some (Inr s2) \<Rightarrow>
                  (case generateNodesToRender (\<lambda>f. f) literal_search s2 of
                     Some (Inr s3) \<Rightarrow>
                       nodesToRender s1 = [item_B, item_C]
                       \<and> nodesToRender s2 = [item_B]
                       \<and> nodesToRender s3 = [item_B, item_C]
                       \<and> openNodes s3 = openNodes s2
                   | _ \<Rightarrow> False)
              | _ \<Rightarrow> False)
         | _ \<Rightarrow> False)
    | _ \<Rightarrow> False)"
  by (simp add: scenario_defs method_defs track_defs)

subsection \<open>Toggling a node twice\<close>

text \<open>
  C4, amended. In a state whose rendered list is the unfiltered recompute of its open
  nodes and in which the parent of every open node is open or the root, toggling a
  rendered node twice is handled without an error, and it restores the open nodes and
  the rendered list if and only if no node below the toggled one is open. That is so
  whenever the node is closed (open, then close); closing an open node closes every
  node below it, so close, then open leaves those closed.
\<close>

theorem toggle_twice:
  assumes ct: "card_tree c forest" and cons: "open_state_consistent c"
    and r: "n \<in> set (nodesToRender c)"
  shows "\<exists>D c1 c2. getAllChildren c (uid n) = Some (Inr (n # D))
           \<and> toggle c n = Some (Inr c1) \<and> toggle c1 n = Some (Inr c2)
           \<and> ((openNodes c2 = openNodes c \<and> nodesToRender c2 = nodesToRender c)
                \<longleftrightarrow> uid ` set D \<inter> openNodes c = {})
           \<and> (uid n \<notin> openNodes c \<longrightarrow> uid ` set D \<inter> openNodes c = {})"
proof -
  have v: "nodesToRender c = filter (shown (openNodes c)) (children c)"
    using cons by (simp add: open_state_consistent_def)
  with r have n: "n \<in> set (children c)" and sh: "shown (openNodes c) n"
    by simp_all
  from node_subtree [OF ct n] obtain pre ch post where
    sub: "subtree_at (children c) pre n (flattenNestedData ch (UID (uid n))) post"
    and ch: "childUIDs n = map node_uid ch" and w: "wf_sub ch (UID (uid n))"
    by blast
  define D where "D = flattenNestedData ch (UID (uid n))"
  note sub' = sub [folded D_def]
  have g: "getAllChildren c (uid n) = Some (Inr (n # D))"
    unfolding D_def by (rule getAllChildren_subtree [OF ct sub ch])
  have nD: "uid n \<notin> uid ` set D"
    by (rule subtree_at_uids(1) [OF sub'])
  show ?thesis
  proof (cases "uid n \<in> openNodes c")
    case True
    define O1 where "O1 = openNodes c - uid ` set (n # D)"
    define c1 where "c1 = recomputed c O1"
    have t1: "toggle c n = Some (Inr c1)"
      unfolding c1_def O1_def D_def by (rule toggle_close(1) [OF ct v sub ch True])
    have cons1: "open_state_consistent c1"
      unfolding c1_def O1_def by (rule consistent_after_close [OF cons sub'])
    have ct1: "card_tree c1 forest" using ct by (simp add: c1_def)
    have sub1: "subtree_at (children c1) pre n (flattenNestedData ch (UID (uid n))) post"
      using sub by (simp add: c1_def)
    have cl1: "uid n \<notin> openNodes c1" by (simp add: c1_def O1_def)
    have "shown O1 n = shown (openNodes c) n"
      unfolding O1_def by (rule shown_outside [OF sub']) auto
    with sh have sh1: "shown (openNodes c1) n" by (simp add: c1_def)
    define c2 where "c2 = recomputed c1 (insert (uid n) (openNodes c1))"
    have t2: "toggle c1 n = Some (Inr c2)"
      unfolding c2_def by (rule toggle_open(1) [OF ct1 cons1 sub1 ch w cl1 sh1])
    have o2: "openNodes c2 = insert (uid n) (openNodes c - uid ` set (n # D))"
      by (simp add: c2_def c1_def O1_def)
    have v2: "nodesToRender c2 = filter (shown (openNodes c2)) (children c)"
      by (simp add: c2_def c1_def)
    have "(openNodes c2 = openNodes c \<and> nodesToRender c2 = nodesToRender c)
        \<longleftrightarrow> uid ` set D \<inter> openNodes c = {}"
    proof
      assume "openNodes c2 = openNodes c \<and> nodesToRender c2 = nodesToRender c"
      then have eq: "insert (uid n) (openNodes c - uid ` set (n # D)) = openNodes c"
        using o2 by simp
      have "x \<notin> openNodes c" if x: "x \<in> uid ` set D" for x
      proof
        assume "x \<in> openNodes c"
        then have "x \<in> insert (uid n) (openNodes c - uid ` set (n # D))"
          by (simp only: eq)
        with x nD show False by auto
      qed
      then show "uid ` set D \<inter> openNodes c = {}" by blast
    next
      assume "uid ` set D \<inter> openNodes c = {}"
      with True have "openNodes c2 = openNodes c" unfolding o2 by auto
      with v v2 show "openNodes c2 = openNodes c \<and> nodesToRender c2 = nodesToRender c"
        by simp
    qed
    with g t1 t2 True show ?thesis by blast
  next
    case False
    define c1 where "c1 = recomputed c (insert (uid n) (openNodes c))"
    have t1: "toggle c n = Some (Inr c1)"
      unfolding c1_def by (rule toggle_open(1) [OF ct cons sub ch w False sh])
    have none: "uid ` set (n # D) \<inter> openNodes c = {}"
      unfolding D_def by (rule nothing_open_below [OF sub cons False])
    have ct1: "card_tree c1 forest" using ct by (simp add: c1_def)
    have v1: "nodesToRender c1 = filter (shown (openNodes c1)) (children c1)"
      by (simp add: c1_def)
    have sub1: "subtree_at (children c1) pre n (flattenNestedData ch (UID (uid n))) post"
      using sub by (simp add: c1_def)
    have op1: "uid n \<in> openNodes c1" by (simp add: c1_def)
    define c2 where "c2 = recomputed c1 (openNodes c1 - uid ` set (n # D))"
    have t2: "toggle c1 n = Some (Inr c2)"
      unfolding c2_def D_def by (rule toggle_close(1) [OF ct1 v1 sub1 ch op1])
    have "openNodes c2 = insert (uid n) (openNodes c) - uid ` set (n # D)"
      by (simp add: c2_def c1_def)
    with none have o2: "openNodes c2 = openNodes c" by auto
    have "nodesToRender c2 = filter (shown (openNodes c2)) (children c)"
      by (simp add: c2_def c1_def)
    with o2 v have "nodesToRender c2 = nodesToRender c" by simp
    with g t1 t2 o2 none show ?thesis by auto
  qed
qed

lemma scenario_card_tree_2: "card_tree (recomputed scenario_card {2}) scenario_forest"
  by (simp add: card_tree_def flat_tree_invariants_def scenario_defs)

lemma scenario_consistent_2: "open_state_consistent (recomputed scenario_card {2})"
  by (simp add: open_state_consistent_def scenario_defs shown_def openNodes_at_def)

theorem toggle_twice_witness:
  "card_tree (recomputed scenario_card {2}) scenario_forest
   \<and> open_state_consistent (recomputed scenario_card {2})
   \<and> item_B' \<in> set (nodesToRender (recomputed scenario_card {2}))
   \<and> (\<exists>c1 c2. getAllChildren (recomputed scenario_card {2}) (uid item_B')
                  = Some (Inr [item_B', item_C, item_D])
           \<and> toggle (recomputed scenario_card {2}) item_B' = Some (Inr c1)
           \<and> toggle c1 item_B' = Some (Inr c2)
           \<and> openNodes c2 = {2}
           \<and> nodesToRender c2 = [item_A, item_B', item_C, item_D])"
proof -
  define s where "s = recomputed scenario_card {2}"
  have ct: "card_tree s scenario_forest"
    unfolding s_def by (rule scenario_card_tree_2)
  have cons: "open_state_consistent s"
    unfolding s_def by (rule scenario_consistent_2)
  have r: "item_B' \<in> set (nodesToRender s)"
    unfolding s_def by (simp add: scenario_defs shown_def openNodes_at_def)
  have g: "getAllChildren s (uid item_B') = Some (Inr [item_B', item_C, item_D])"
    unfolding s_def by (simp add: scenario_defs method_defs)
  have o: "openNodes s = {2}"
    and v: "nodesToRender s = [item_A, item_B', item_C, item_D]"
    unfolding s_def by (simp_all add: scenario_defs shown_def openNodes_at_def)
  from toggle_twice [OF ct cons r] obtain D c1 c2 where
    gD: "getAllChildren s (uid item_B') = Some (Inr (item_B' # D))"
    and t1: "toggle s item_B' = Some (Inr c1)"
    and t2: "toggle c1 item_B' = Some (Inr c2)"
    and iff: "(openNodes c2 = openNodes s \<and> nodesToRender c2 = nodesToRender s)
      \<longleftrightarrow> uid ` set D \<inter> openNodes s = {}"
    by (elim exE conjE) (rule that; assumption)
  from gD g have D: "D = [item_C, item_D]" by simp
  have "uid ` set D \<inter> openNodes s = {}"
    unfolding D o by (simp add: scenario_defs)
  with iff have "openNodes c2 = {2}" "nodesToRender c2 = [item_A, item_B', item_C, item_D]"
    unfolding o v by simp_all
  with t1 t2 g ct cons r show ?thesis
    unfolding s_def by blast
qed


text \<open>
  C4 as it is written fails. On the tree A, B with C below B and the active path to C,
  the nodes B and C are open when the component is created. Toggling B closes B and C;
  toggling B again opens B only, so the open nodes are not what they were.
\<close>

theorem toggle_twice_counterexample:
  "(case restorePersistedState (\<lambda>f. f) literal_search
            (new_card ''T'' (flattenNestedData [tree_A, tree_B] INDEX_ROOT_KEY)
               [''/b'', ''/b/c''] empty_storage) of
      Some (Inr m) \<Rightarrow>
        (case toggle m item_B of
           Some (Inr c1) \<Rightarrow>
             (case toggle c1 item_B of
                Some (Inr c2) \<Rightarrow>
                  openNodes m = {2, 3} \<and> nodesToRender m = [item_A, item_B, item_C]
                  \<and> openNodes c1 = {} \<and> nodesToRender c1 = [item_A, item_B]
                  \<and> openNodes c2 = {2} \<and> nodesToRender c2 = [item_A, item_B, item_C]
                  \<and> openNodes c2 \<noteq> openNodes m
              | _ \<Rightarrow> False)
         | _ \<Rightarrow> False)
    | _ \<Rightarrow> False)"
  by (simp add: scenario_defs method_defs track_defs)

subsection \<open>The unfiltered recompute and the scenario of the active path\<close>

text \<open>
  C3, amended. The unfiltered recompute renders a node if and only if its parent is the
  root key or the uid of its parent is an open node. When the component is created
  for the tree A (uid 1), B (uid 2) with C (uid 3) below B and an active path that
  resolves to B and C, the open nodes are the uids 2 and 3 of the whole active path,
  the active node included, and the rendered list is A, B, C.
\<close>

theorem unfiltered_recompute_rule:
  "(\<not> hasFilter c \<longrightarrow>
      (\<exists>c'. generateNodesToRender shp search c = Some (Inr c')
         \<and> nodesToRender c'
             = filter (\<lambda>n. parent n = INDEX_ROOT_KEY \<or> (\<exists>u \<in> openNodes c. parent n = UID u))
                 (children c)
         \<and> openNodes c' = openNodes c))
   \<and> (\<exists>c'. restorePersistedState shp search
               (new_card ''T'' (flattenNestedData [tree_A, tree_B] INDEX_ROOT_KEY)
                  [''/b'', ''/b/c''] empty_storage) = Some (Inr c')
         \<and> openNodes c' = {2, 3}
         \<and> nodesToRender c' = [item_A, item_B, item_C])"
proof -
  have "shown (openNodes c) = (\<lambda>n. parent n = INDEX_ROOT_KEY \<or> (\<exists>u \<in> openNodes c. parent n = UID u))"
    by (rule ext) (auto simp: shown_def openNodes_at_def split: parent_key.splits)
  then have 1: "\<not> hasFilter c \<longrightarrow>
      (\<exists>c'. generateNodesToRender shp search c = Some (Inr c')
         \<and> nodesToRender c'
             = filter (\<lambda>n. parent n = INDEX_ROOT_KEY \<or> (\<exists>u \<in> openNodes c. parent n = UID u))
                 (children c)
         \<and> openNodes c' = openNodes c)"
    by (simp add: generateNodesToRender_unfiltered)
  have 2: "\<exists>c'. restorePersistedState shp search
               (new_card ''T'' (flattenNestedData [tree_A, tree_B] INDEX_ROOT_KEY)
                  [''/b'', ''/b/c''] empty_storage) = Some (Inr c')
         \<and> openNodes c' = {2, 3}
         \<and> nodesToRender c' = [item_A, item_B, item_C]"
    by (simp add: scenario_defs method_defs track_defs)
  from 1 2 show ?thesis by (rule conjI)
qed

theorem unfiltered_recompute_rule_witness:
  "\<not> hasFilter (recomputed scenario_card {2})
   \<and> (\<exists>c'. generateNodesToRender (\<lambda>f. f) literal_search (recomputed scenario_card {2})
               = Some (Inr c')
         \<and> nodesToRender c' = [item_A, item_B', item_C, item_D]
         \<and> openNodes c' = {2})"
proof -
  have f: "\<not> hasFilter (recomputed scenario_card {2})"
    by (simp add: hasFilter_def scenario_defs)
  have "filter (\<lambda>n. parent n = INDEX_ROOT_KEY
                  \<or> (\<exists>u \<in> openNodes (recomputed scenario_card {2}). parent n = UID u))
          (children (recomputed scenario_card {2})) = [item_A, item_B', item_C, item_D]"
    by (simp add: scenario_defs)
  with f unfiltered_recompute_rule [of "recomputed scenario_card {2}" "\<lambda>f. f" literal_search]
  show ?thesis by simp
qed

text \<open>
  C3 as it is written fails in its scenario: with the active path resolving to C, the
  open nodes after the component is created are the uids 2 and 3, not the uid 2 alone.
\<close>

theorem active_path_open_nodes_counterexample:
  "(case restorePersistedState (\<lambda>f. f) literal_search
            (new_card ''T'' (flattenNestedData [tree_A, tree_B] INDEX_ROOT_KEY)
               [''/b'', ''/b/c''] empty_storage) of
      Some (Inr c') \<Rightarrow>
        openNodes c' = {2, 3} \<and> openNodes c' \<noteq> {2}
        \<and> nodesToRender c' = [item_A, item_B, item_C]
    | _ \<Rightarrow> False)"
  by (simp add: scenario_defs method_defs track_defs)

subsection \<open>The parents of a node, and the recompute on a flattened tree\<close>

lemma getParents_loop_Nil: "getParents_loop cm [] arr = Some (Inr arr)"
  by (subst getParents_loop.simps) simp

lemma card_tree_zero: "card_tree c forest \<Longrightarrow> 0 \<notin> uid ` set (children c)"
  by (simp add: card_tree_def flat_tree_invariants_def)

lemma getParents_card:
  assumes "card_tree c forest" "m \<in> set (children c)"
  shows "getParents c (uid m) = Some (Inr (ancestor_chain forest INDEX_ROOT_KEY (uid m)))"
proof -
  have ch: "children c = flattenNestedData forest INDEX_ROOT_KEY"
    using assms(1) by (simp add: card_tree_def)
  have h: "cm_holds (childrenMap c) (flattenNestedData forest INDEX_ROOT_KEY)"
    unfolding ch [symmetric]
    by (rule cm_holds_childrenMap [OF card_tree_distinct [OF assms(1)]]) simp
  have z: "0 \<notin> uid ` set (flattenNestedData forest INDEX_ROOT_KEY)"
    using card_tree_zero [OF assms(1)] by (simp add: ch)
  have m: "m \<in> set (flattenNestedData forest INDEX_ROOT_KEY)"
    using assms(2) by (simp add: ch)
  from getParents_loop_chain [OF h card_tree_wf_sub [OF assms(1)] z m, of "[]"]
  show ?thesis
    by (simp add: getParents_def push_parent_def getParents_loop_Nil)
qed

lemma flatMap_getParents_card:
  assumes "card_tree c forest"
  shows "set ms \<subseteq> set (children c) \<Longrightarrow>
    flatMap_getParents c f ms
      = Some (Inr (concat (map (\<lambda>m. f (ancestor_chain forest INDEX_ROOT_KEY (uid m))) ms)))"
  by (induction ms) (simp_all add: getParents_card [OF assms])

lemma ancestor_chain_in_children:
  "card_tree c forest \<Longrightarrow> set (ancestor_chain forest INDEX_ROOT_KEY v) \<subseteq> set (children c)"
  using ancestor_chain_subset [of forest INDEX_ROOT_KEY v] by (simp add: card_tree_def)

text \<open>The nodes on the ancestor chains of the filter matches, the matches included.\<close>

definition matches_with_ancestors ::
  "NavigatorTree list \<Rightarrow> NavigatorFlatItem list \<Rightarrow> NavigatorFlatItem list" where
  "matches_with_ancestors forest ms =
     concat (map (\<lambda>m. ancestor_chain forest INDEX_ROOT_KEY (uid m)) ms)"

lemma generateNodesToRender_card:
  assumes "card_tree c forest"
  shows "generateNodesToRender shp search c
     = Some (Inr (persistState
         (c\<lparr>nodesToRender :=
              filter (generateNodesToRender_callback (hasFilter c) (openNodes c) (childrenMap c)
                        (matches_with_ancestors forest (filteredChildren shp search c))
                        (filteredChildren shp search c))
                (children c)\<rparr>)))"
  unfolding generateNodesToRender_def matches_with_ancestors_def
  by (simp add: flatMap_getParents_card [OF assms filteredChildren_subset])

lemma card_tree_openNodes_update [simp]:
  "card_tree (c\<lparr>openNodes := opn\<rparr>) forest = card_tree c forest"
  by (simp add: card_tree_def)

lemma filteredChildren_openNodes_update [simp]:
  "filteredChildren shp search (c\<lparr>openNodes := opn\<rparr>) = filteredChildren shp search c"
  by (simp add: filteredChildren_def hasFilter_def)

lemma card_tree_childUIDs_resolve:
  assumes "card_tree c forest"
  shows "childUIDs_resolve c"
  unfolding childUIDs_resolve_def
proof (intro ballI)
  fix n u assume n: "n \<in> set (children c)" and u: "u \<in> set (childUIDs n)"
  from node_subtree [OF assms n] obtain pre ch post where
    sub: "subtree_at (children c) pre n (flattenNestedData ch (UID (uid n))) post"
    and ch: "childUIDs n = map node_uid ch"
    by blast
  have "cm_holds (childrenMap c) (flattenNestedData ch (UID (uid n)))"
    using subtree_at_subset [OF sub]
    by (intro cm_holds_childrenMap card_tree_distinct [OF assms]) simp
  from map_cm_root_items [OF this] ch
  have "map (childrenMap c) (childUIDs n) = map Some (root_items ch (UID (uid n)))"
    by simp
  then have "None \<notin> set (map (childrenMap c) (childUIDs n))" by auto
  with u show "childrenMap c u \<noteq> None" by force
qed

lemma spec_resolve_from_subset:
  "set cands \<subseteq> set (children c) \<Longrightarrow>
   set (spec_resolve_from (childrenMap c) cands segs) \<subseteq> set (children c)"
proof (induction segs arbitrary: cands)
  case Nil
  then show ?case by simp
next
  case (Cons seg segs)
  have "set (List.map_filter (childrenMap c) us) \<subseteq> set (children c)" for us
    by (auto simp: List.map_filter_def dest: childrenMap_in_children)
  note IH = Cons.IH [OF this]
  show ?case
  proof (cases "find (\<lambda>n. path n = Some seg) cands")
    case None
    then show ?thesis by simp
  next
    case (Some n)
    then have "n \<in> set (children c)"
      using Cons.prems by (auto dest: find_SomeD)
    with Some IH show ?thesis by simp
  qed
qed

lemma activePathChildren_card:
  assumes "card_tree c forest"
  shows "\<exists>ns. activePathChildren c = Inr ns \<and> set ns \<subseteq> set (children c)"
proof -
  have "activePathChildren c
      = Inr (spec_resolve_from (childrenMap c) (children c) (activePath c))"
    unfolding activePathChildren_def
    using activePathChildren_loop_resolve
      [OF card_tree_childUIDs_resolve [OF assms], of "children c" "activePath c" "[]"]
    by simp
  with spec_resolve_from_subset [of "children c" c "activePath c"] show ?thesis by simp
qed

lemma generateNodesToRender_card_openNodes:
  assumes "card_tree c forest"
  shows "\<exists>c'. generateNodesToRender shp search (c\<lparr>openNodes := opn\<rparr>) = Some (Inr c')
           \<and> openNodes c' = opn \<and> children c' = children c"
  using generateNodesToRender_card [of "c\<lparr>openNodes := opn\<rparr>" forest shp search] assms
  by (simp add: persistState_def)

lemma nodeChangeDeps_fields:
  "nodeChangeDeps shp search c = Inr now \<Longrightarrow>
   deps_filteredChildren now = filteredChildren shp search c
   \<and> activePathChildren c = Inr (deps_activePathChildren now)
   \<and> deps_debouncedFilter now = debouncedFilter c
   \<and> deps_selectedTags now = selectedTags c"
  by (auto simp: nodeChangeDeps_def split: sum.splits)

subsection \<open>Navigation\<close>

text \<open>
  C5, amended. A navigation is a call of \<open>trackOpenNodes\<close> by the watcher in which the
  active path children are a new array and the filter text and the tags are what they
  were. It returns, and it keeps every open node. What it adds is, in unfiltered mode,
  the uids of all active path children, the active node itself included, and, while a
  filter is on, the uids of the nodes above the filter matches, whatever the active
  path is.
\<close>

theorem navigation_keeps_open_nodes:
  assumes ct: "card_tree c forest"
    and now: "nodeChangeDeps shp search c = Inr now"
    and f: "deps_debouncedFilter old = deps_debouncedFilter now"
    and t: "deps_selectedTags old = deps_selectedTags now"
    and nav: "deps_activePathChildren_ref old \<noteq> deps_activePathChildren_ref now"
  shows "\<exists>c'. trackOpenNodes shp search c now (Some old) = Some (Inr c')
           \<and> openNodes c \<subseteq> openNodes c'
           \<and> openNodes c' = openNodes c \<union> uid ` set
                 (if hasFilter c
                  then concat (map (\<lambda>m. butlast (ancestor_chain forest INDEX_ROOT_KEY (uid m)))
                                 (filteredChildren shp search c))
                  else deps_activePathChildren now)"
proof -
  define nodes where "nodes =
     (if hasFilter c
      then concat (map (\<lambda>m. butlast (ancestor_chain forest INDEX_ROOT_KEY (uid m)))
                     (filteredChildren shp search c))
      else deps_activePathChildren now)"
  have fc: "deps_filteredChildren now = filteredChildren shp search c"
    using nodeChangeDeps_fields [OF now] by simp
  have n: "(if \<not> hasFilter c then Some (Inr (deps_activePathChildren now))
            else flatMap_getParents c butlast (deps_filteredChildren now)) = Some (Inr nodes)"
    unfolding fc nodes_def
    by (simp add: flatMap_getParents_card [OF ct filteredChildren_subset])
  from generateNodesToRender_card_openNodes [OF ct, of shp search "openNodes c \<union> uid ` set nodes"]
  obtain c' where g: "generateNodesToRender shp search
        (c\<lparr>openNodes := openNodes c \<union> uid ` set nodes\<rparr>) = Some (Inr c')"
    and o: "openNodes c' = openNodes c \<union> uid ` set nodes"
    by blast
  have "trackOpenNodes shp search c now (Some old) = Some (Inr c')"
    unfolding trackOpenNodes_def using f t nav n g by (simp add: Let_def)
  with o show ?thesis unfolding nodes_def by blast
qed

text \<open>
  The scenario after a navigation to A: the component with C active and the nodes 2 and
  3 open gets the active path \<open>[/a]\<close>, and \<open>nodeChangeDeps\<close> holds a new array.
\<close>

definition navigated_card :: NavigatorCard where
  "navigated_card =
     (recomputed scenario_card {2, 3})\<lparr>activePath := [''/a''], activePathChildren_ref := 1\<rparr>"

definition navigated_now :: nodeChangeDeps where
  "navigated_now =
     \<lparr>deps_filteredChildren = [], deps_activePathChildren = [item_A],
      deps_activePathChildren_ref = 1, deps_debouncedFilter = [], deps_selectedTags = []\<rparr>"

definition navigated_old :: nodeChangeDeps where
  "navigated_old =
     \<lparr>deps_filteredChildren = [], deps_activePathChildren = [item_B', item_C],
      deps_activePathChildren_ref = 0, deps_debouncedFilter = [], deps_selectedTags = []\<rparr>"

theorem navigation_keeps_open_nodes_witness:
  "card_tree navigated_card scenario_forest
   \<and> nodeChangeDeps (\<lambda>f. f) literal_search navigated_card = Inr navigated_now
   \<and> openNodes navigated_card = {2, 3}
   \<and> (\<exists>c'. trackOpenNodes (\<lambda>f. f) literal_search navigated_card navigated_now
               (Some navigated_old) = Some (Inr c')
         \<and> openNodes c' = {1, 2, 3})"
proof -
  have ct: "card_tree navigated_card scenario_forest"
    by (simp add: navigated_card_def card_tree_def flat_tree_invariants_def scenario_defs
        recomputed_def persistState_def)
  have now: "nodeChangeDeps (\<lambda>f. f) literal_search navigated_card = Inr navigated_now"
    by (simp add: navigated_card_def navigated_now_def scenario_defs method_defs track_defs)
  have f: "deps_debouncedFilter navigated_old = deps_debouncedFilter navigated_now"
    and t: "deps_selectedTags navigated_old = deps_selectedTags navigated_now"
    and nav: "deps_activePathChildren_ref navigated_old
                \<noteq> deps_activePathChildren_ref navigated_now"
    by (simp_all add: navigated_old_def navigated_now_def)
  have o: "openNodes navigated_card = {2, 3}"
    and h: "\<not> hasFilter navigated_card"
    by (simp_all add: navigated_card_def recomputed_def persistState_def hasFilter_def
        scenario_defs)
  from navigation_keeps_open_nodes [OF ct now f t nav] obtain c' where
    "trackOpenNodes (\<lambda>f. f) literal_search navigated_card navigated_now (Some navigated_old)
       = Some (Inr c')"
    "openNodes c' = openNodes navigated_card \<union> uid ` set
                 (if hasFilter navigated_card
                  then concat (map (\<lambda>m. butlast (ancestor_chain scenario_forest INDEX_ROOT_KEY (uid m)))
                                 (filteredChildren (\<lambda>f. f) literal_search navigated_card))
                  else deps_activePathChildren navigated_now)"
    by (elim exE conjE) (rule that; assumption)
  moreover have "openNodes navigated_card \<union> uid ` set (deps_activePathChildren navigated_now)
      = {1, 2, 3}"
    unfolding o by (auto simp: navigated_now_def item_A_def)
  ultimately have "\<exists>c'. trackOpenNodes (\<lambda>f. f) literal_search navigated_card navigated_now
               (Some navigated_old) = Some (Inr c')
         \<and> openNodes c' = {1, 2, 3}"
    using h by auto
  with ct now o show ?thesis by blast
qed

text \<open>
  C5 as it is written fails in what the navigation adds. In the scenario, after the
  creation with C active, the nodes 2 and 3 are open and A, B, C, D are rendered. A
  navigation to the top-level node A, which is rendered whatever is open, adds the uid
  1 of A itself and changes nothing in the rendered list. With the tag filter
  Tutorials on and B closed by a toggle, the same navigation to A opens B again, the
  node above the match C, and A is not rendered.
\<close>

theorem navigation_opens_more_counterexample:
  "(case restorePersistedState (\<lambda>f. f) literal_search scenario_card of
      Some (Inr m) \<Rightarrow>
        (case nodeChangeDeps_watcher (\<lambda>f. f) literal_search m
                (m\<lparr>activePath := [''/a''], activePathChildren_ref := 1\<rparr>) of
           Some (Inr c') \<Rightarrow>
             activeUID (m\<lparr>activePath := [''/a''], activePathChildren_ref := 1\<rparr>) = Inr (Some 1)
             \<and> parent item_A = INDEX_ROOT_KEY
             \<and> nodesToRender m = [item_A, item_B', item_C, item_D]
             \<and> openNodes m = {2, 3}
             \<and> openNodes c' = {1, 2, 3}
             \<and> nodesToRender c' = nodesToRender m
         | _ \<Rightarrow> False)
    | _ \<Rightarrow> False)
   \<and> (case restorePersistedState (\<lambda>f. f) literal_search
            (new_card ''T'' (flattenNestedData [tree_A, tree_B] INDEX_ROOT_KEY) [] empty_storage) of
      Some (Inr m) \<Rightarrow>
        (case nodeChangeDeps_watcher (\<lambda>f. f) literal_search m
                (m\<lparr>selectedTags := [FILTER_TAGS_tutorials]\<rparr>) of
           Some (Inr s1) \<Rightarrow>
             (case toggle s1 item_B of
                Some (Inr s2) \<Rightarrow>
                  (case nodeChangeDeps_watcher (\<lambda>f. f) literal_search s2
                          (s2\<lparr>activePath := [''/a''], activePathChildren_ref := 1\<rparr>) of
                     Some (Inr s3) \<Rightarrow>
                       activeUID (s2\<lparr>activePath := [''/a''], activePathChildren_ref := 1\<rparr>)
                         = Inr (Some 1)
                       \<and> openNodes s2 = {}
                       \<and> nodesToRender s2 = [item_B]
                       \<and> openNodes s3 = {2}
                       \<and> nodesToRender s3 = [item_B, item_C]
                   | _ \<Rightarrow> False)
              | _ \<Rightarrow> False)
         | _ \<Rightarrow> False)
    | _ \<Rightarrow> False)"
  by (simp add: scenario_defs method_defs track_defs activeUID_def)

subsection \<open>Open nodes and the node map\<close>

text \<open>Every open uid is a key of \<open>childrenMap\<close>.\<close>

definition openNodes_resolve :: "NavigatorCard \<Rightarrow> bool" where
  "openNodes_resolve c = (openNodes c \<subseteq> dom (childrenMap c))"

lemma childrenMap_dom:
  "card_tree c forest \<Longrightarrow> set ns \<subseteq> set (children c) \<Longrightarrow> uid ` set ns \<subseteq> dom (childrenMap c)"
  using childrenMap_distinct [OF card_tree_distinct, of c forest] by auto

lemma childrenMap_children_eq:
  "children c' = children c \<Longrightarrow> childrenMap c' = childrenMap c"
  by (simp add: childrenMap_def)

lemma augmentRenderNodes_fields:
  "augmentRenderNodes c u incl excl = Inr c' \<Longrightarrow>
   openNodes c' = openNodes c \<and> children c' = children c"
  by (auto simp: augmentRenderNodes_def persistState_def Let_def split: if_splits)

lemma augmentRenderNodes_returns:
  "None \<notin> set incl \<Longrightarrow> \<exists>c'. augmentRenderNodes c u incl excl = Inr c'"
  by (simp add: augmentRenderNodes_def Let_def)

lemma toggle_card:
  assumes ct: "card_tree c forest" and n: "n \<in> set (children c)"
  shows "\<exists>c' D. getAllChildren c (uid n) = Some (Inr (n # D))
           \<and> set D \<subseteq> set (children c)
           \<and> toggle c n = Some (Inr c') \<and> children c' = children c
           \<and> openNodes c' = (if uid n \<in> openNodes c then openNodes c - uid ` set (n # D)
                              else insert (uid n) (openNodes c))"
    and "\<exists>c' D. getAllChildren c (uid n) = Some (Inr (n # D))
           \<and> set D \<subseteq> set (children c)
           \<and> toggleFullTree c n = Some (Inr c') \<and> children c' = children c
           \<and> openNodes c' = (if uid n \<in> openNodes c then openNodes c - uid ` set (n # D)
                              else openNodes c \<union> uid ` set (n # D))"
proof -
  from node_subtree [OF ct n] obtain pre ch post where
    sub: "subtree_at (children c) pre n (flattenNestedData ch (UID (uid n))) post"
    and ch: "childUIDs n = map node_uid ch"
    by blast
  define D where "D = flattenNestedData ch (UID (uid n))"
  have g: "getAllChildren c (uid n) = Some (Inr (n # D))"
    unfolding D_def by (rule getAllChildren_subtree [OF ct sub ch])
  have D: "set D \<subseteq> set (children c)"
    using subtree_at_subset [OF sub] by (simp add: D_def)
  have "cm_holds (childrenMap c) D"
    using D by (intro cm_holds_childrenMap card_tree_distinct [OF ct])
  from map_cm_root_items [OF this [unfolded D_def]] ch
  have incl: "None \<notin> set (map (childrenMap c) (childUIDs n))" by auto
  show "\<exists>c' D. getAllChildren c (uid n) = Some (Inr (n # D))
           \<and> set D \<subseteq> set (children c)
           \<and> toggle c n = Some (Inr c') \<and> children c' = children c
           \<and> openNodes c' = (if uid n \<in> openNodes c then openNodes c - uid ` set (n # D)
                              else insert (uid n) (openNodes c))"
  proof (cases "uid n \<in> openNodes c")
    case True
    from augmentRenderNodes_returns
      [of "[]" "c\<lparr>openNodes := openNodes c - uid ` set (n # D)\<rparr>" "uid n" "drop 1 (n # D)"]
    obtain c' where a: "augmentRenderNodes (c\<lparr>openNodes := openNodes c - uid ` set (n # D)\<rparr>)
        (uid n) [] (drop 1 (n # D)) = Inr c'"
      by auto
    from augmentRenderNodes_fields [OF a] a g True D show ?thesis
      by (simp add: toggle_def)
  next
    case False
    from augmentRenderNodes_returns [OF incl,
        of "c\<lparr>openNodes := insert (uid n) (openNodes c)\<rparr>" "uid n" "[]"]
    obtain c' where a: "augmentRenderNodes (c\<lparr>openNodes := insert (uid n) (openNodes c)\<rparr>)
        (uid n) (map (childrenMap c) (childUIDs n)) [] = Inr c'"
      by auto
    from augmentRenderNodes_fields [OF a] a g False D show ?thesis
      by (simp add: toggle_def)
  qed
  show "\<exists>c' D. getAllChildren c (uid n) = Some (Inr (n # D))
           \<and> set D \<subseteq> set (children c)
           \<and> toggleFullTree c n = Some (Inr c') \<and> children c' = children c
           \<and> openNodes c' = (if uid n \<in> openNodes c then openNodes c - uid ` set (n # D)
                              else openNodes c \<union> uid ` set (n # D))"
  proof (cases "uid n \<in> openNodes c")
    case True
    from augmentRenderNodes_returns
      [of "[]" "c\<lparr>openNodes := openNodes c - uid ` set (n # D)\<rparr>" "uid n" "drop 1 (n # D)"]
    obtain c' where a: "augmentRenderNodes (c\<lparr>openNodes := openNodes c - uid ` set (n # D)\<rparr>)
        (uid n) [] (drop 1 (n # D)) = Inr c'"
      by auto
    from augmentRenderNodes_fields [OF a] a g True D show ?thesis
      by (simp add: toggleFullTree_def)
  next
    case False
    have "None \<notin> set (map Some (drop 1 (n # D)))" by auto
    from augmentRenderNodes_returns [OF this,
        of "c\<lparr>openNodes := openNodes c \<union> uid ` set (n # D)\<rparr>" "uid n" "[]"]
    obtain c' where a: "augmentRenderNodes (c\<lparr>openNodes := openNodes c \<union> uid ` set (n # D)\<rparr>)
        (uid n) (map Some (drop 1 (n # D))) [] = Inr c'"
      by auto
    from augmentRenderNodes_fields [OF a] a g False D show ?thesis
      by (simp add: toggleFullTree_def)
  qed
qed

lemma trackOpenNodes_card:
  assumes ct: "card_tree c forest" and now: "nodeChangeDeps shp search c = Inr now"
  shows "\<exists>c' nodes. trackOpenNodes shp search c now old = Some (Inr c')
           \<and> children c' = children c \<and> set nodes \<subseteq> set (children c)
           \<and> (openNodes c' = openNodes c \<or> openNodes c' = openNodes c \<union> uid ` set nodes
               \<or> openNodes c' = uid ` set nodes)"
proof -
  define nodes where "nodes =
     (if hasFilter c
      then concat (map (\<lambda>m. butlast (ancestor_chain forest INDEX_ROOT_KEY (uid m)))
                     (filteredChildren shp search c))
      else deps_activePathChildren now)"
  note d = nodeChangeDeps_fields [OF now]
  have n: "(if \<not> hasFilter c then Some (Inr (deps_activePathChildren now))
            else flatMap_getParents c butlast (deps_filteredChildren now)) = Some (Inr nodes)"
    unfolding nodes_def using d
    by (simp add: flatMap_getParents_card [OF ct filteredChildren_subset])
  have sub: "set nodes \<subseteq> set (children c)"
  proof (cases "hasFilter c")
    case True
    have "set (butlast (ancestor_chain forest INDEX_ROOT_KEY v)) \<subseteq> set (children c)" for v
      using ancestor_chain_in_children [OF ct, of v] by (auto dest: in_set_butlastD)
    with True show ?thesis by (auto simp: nodes_def)
  next
    case False
    with activePathChildren_card [OF ct] d show ?thesis by (auto simp: nodes_def)
  qed
  define opn where "opn = (if (case old of None \<Rightarrow> True
       | Some b \<Rightarrow> deps_activePathChildren_ref b \<noteq> deps_activePathChildren_ref now)
     then openNodes c else {}) \<union> uid ` set nodes"
  from generateNodesToRender_card_openNodes [OF ct, of shp search opn]
  obtain c' where g: "generateNodesToRender shp search (c\<lparr>openNodes := opn\<rparr>) = Some (Inr c')"
    and o: "openNodes c' = opn" and ch: "children c' = children c"
    by blast
  have "trackOpenNodes shp search c now old = Some (Inr c)
      \<or> trackOpenNodes shp search c now old = Some (Inr c')"
    unfolding trackOpenNodes_def using n g by (simp add: Let_def opn_def)
  moreover have "openNodes c' = openNodes c \<union> uid ` set nodes \<or> openNodes c' = uid ` set nodes"
    unfolding o opn_def by simp
  ultimately show ?thesis using ch sub by blast
qed

lemma nodeChangeDeps_card:
  "card_tree c forest \<Longrightarrow> \<exists>now. nodeChangeDeps shp search c = Inr now"
  using activePathChildren_card [of c forest] by (auto simp: nodeChangeDeps_def)

lemma subset_track: "A \<subseteq> M \<Longrightarrow> B \<subseteq> M \<Longrightarrow> X = B \<or> X = B \<union> A \<or> X = A \<Longrightarrow> X \<subseteq> M"
  by auto

lemma subset_toggle_one:
  "u \<in> M \<Longrightarrow> B \<subseteq> M \<Longrightarrow> X = (if b then B - S else insert u B) \<Longrightarrow> X \<subseteq> M"
  by auto

lemma subset_toggle:
  "A \<subseteq> M \<Longrightarrow> B \<subseteq> M \<Longrightarrow> X = (if b then B - S else B \<union> A) \<Longrightarrow> X \<subseteq> M"
  by auto

text \<open>
  C7, amended. For a flat list that keeps the invariants and open nodes that are all
  keys of the node map, \<open>trackOpenNodes\<close> (the first tracking, a filter change, a
  navigation), \<open>toggle\<close> and \<open>toggleFullTree\<close> of a node of the list return and leave
  open nodes that are all keys of the node map. \<open>restorePersistedState\<close> returns as
  well, but it takes over the persisted open uids as they are: it checks the persisted
  rendered uids only, so the open nodes after it are keys of the node map when the
  persisted open uids are.
\<close>

theorem openNodes_stay_in_childrenMap:
  assumes ct: "card_tree c forest" and v: "openNodes_resolve c"
  shows "(\<forall>now old. nodeChangeDeps shp search c = Inr now \<longrightarrow>
            (\<exists>c'. trackOpenNodes shp search c now old = Some (Inr c') \<and> openNodes_resolve c'))
     \<and> (\<forall>n \<in> set (children c).
            (\<exists>c'. toggle c n = Some (Inr c') \<and> openNodes_resolve c')
          \<and> (\<exists>c'. toggleFullTree c n = Some (Inr c') \<and> openNodes_resolve c'))
     \<and> (\<exists>c'. restorePersistedState shp search c = Some (Inr c')
            \<and> ((case STORAGE_KEYS_openNodes (sessionStorage c) of None \<Rightarrow> {} | Some opn \<Rightarrow> opn)
                  \<subseteq> dom (childrenMap c) \<longrightarrow> openNodes_resolve c'))"
proof (intro conjI allI impI ballI)
  fix now old assume now: "nodeChangeDeps shp search c = Inr now"
  from trackOpenNodes_card [OF ct now, of old] obtain c' nodes where
    t: "trackOpenNodes shp search c now old = Some (Inr c')"
    and ch: "children c' = children c" and sub: "set nodes \<subseteq> set (children c)"
    and o: "openNodes c' = openNodes c \<or> openNodes c' = openNodes c \<union> uid ` set nodes
               \<or> openNodes c' = uid ` set nodes"
    by (elim exE conjE) (rule that; assumption)
  from childrenMap_dom [OF ct sub] v o have "openNodes c' \<subseteq> dom (childrenMap c)"
    unfolding openNodes_resolve_def by (rule subset_track)
  then have "openNodes_resolve c'"
    by (simp add: openNodes_resolve_def childrenMap_children_eq [OF ch])
  with t show "\<exists>c'. trackOpenNodes shp search c now old = Some (Inr c') \<and> openNodes_resolve c'"
    by blast
next
  fix n assume n: "n \<in> set (children c)"
  from toggle_card(1) [OF ct n] obtain c' D where
    D: "set D \<subseteq> set (children c)"
    and t: "toggle c n = Some (Inr c')" and ch: "children c' = children c"
    and o: "openNodes c' = (if uid n \<in> openNodes c then openNodes c - uid ` set (n # D)
                              else insert (uid n) (openNodes c))"
    by (elim exE conjE) (rule that; assumption)
  have "childrenMap c (uid n) = Some n"
    by (rule childrenMap_distinct [OF card_tree_distinct [OF ct] n])
  then have "uid n \<in> dom (childrenMap c)" by (rule domI)
  from this v o have "openNodes c' \<subseteq> dom (childrenMap c)"
    unfolding openNodes_resolve_def by (rule subset_toggle_one)
  then have "openNodes_resolve c'"
    by (simp add: openNodes_resolve_def childrenMap_children_eq [OF ch])
  with t show "\<exists>c'. toggle c n = Some (Inr c') \<and> openNodes_resolve c'" by blast
next
  fix n assume n: "n \<in> set (children c)"
  from toggle_card(2) [OF ct n] obtain c' D where
    D: "set D \<subseteq> set (children c)"
    and t: "toggleFullTree c n = Some (Inr c')" and ch: "children c' = children c"
    and o: "openNodes c' = (if uid n \<in> openNodes c then openNodes c - uid ` set (n # D)
                              else openNodes c \<union> uid ` set (n # D))"
    by (elim exE conjE) (rule that; assumption)
  from n D have "set (n # D) \<subseteq> set (children c)" by simp
  from childrenMap_dom [OF ct this] v o have "openNodes c' \<subseteq> dom (childrenMap c)"
    unfolding openNodes_resolve_def
    by (rule subset_toggle)
  then have "openNodes_resolve c'"
    by (simp add: openNodes_resolve_def childrenMap_children_eq [OF ch])
  with t show "\<exists>c'. toggleFullTree c n = Some (Inr c') \<and> openNodes_resolve c'" by blast
next
  from nodeChangeDeps_card [OF ct] obtain now where
    now: "nodeChangeDeps shp search c = Inr now" by blast
  from trackOpenNodes_card [OF ct now, of None] obtain ct' nodes where
    t: "trackOpenNodes shp search c now None = Some (Inr ct')"
    and ch: "children ct' = children c" and sub: "set nodes \<subseteq> set (children c)"
    and o: "openNodes ct' = openNodes c \<or> openNodes ct' = openNodes c \<union> uid ` set nodes
               \<or> openNodes ct' = uid ` set nodes"
    by (elim exE conjE) (rule that; assumption)
  from childrenMap_dom [OF ct sub] v o have "openNodes ct' \<subseteq> dom (childrenMap c)"
    unfolding openNodes_resolve_def by (rule subset_track)
  then have vt: "openNodes_resolve ct'"
    by (simp add: openNodes_resolve_def childrenMap_children_eq [OF ch])
  define stored where "stored =
    (case STORAGE_KEYS_openNodes (sessionStorage c) of None \<Rightarrow> {} | Some opn \<Rightarrow> opn)"
  have "restorePersistedState shp search c = Some (Inr ct')
      \<or> (\<exists>c'. restorePersistedState shp search c = Some (Inr c')
             \<and> openNodes c' = stored \<and> children c' = children c)"
    unfolding restorePersistedState_def stored_def using now t by (simp add: Let_def)
  then show "\<exists>c'. restorePersistedState shp search c = Some (Inr c')
            \<and> ((case STORAGE_KEYS_openNodes (sessionStorage c) of None \<Rightarrow> {} | Some opn \<Rightarrow> opn)
                  \<subseteq> dom (childrenMap c) \<longrightarrow> openNodes_resolve c')"
  proof
    assume "restorePersistedState shp search c = Some (Inr ct')"
    with vt show ?thesis by blast
  next
    assume "\<exists>c'. restorePersistedState shp search c = Some (Inr c')
             \<and> openNodes c' = stored \<and> children c' = children c"
    then obtain c' where r: "restorePersistedState shp search c = Some (Inr c')"
      and o': "openNodes c' = stored" and ch': "children c' = children c"
      by blast
    have "stored \<subseteq> dom (childrenMap c) \<longrightarrow> openNodes_resolve c'"
      by (simp add: openNodes_resolve_def o' childrenMap_children_eq [OF ch'])
    with r show ?thesis unfolding stored_def by blast
  qed
qed

theorem openNodes_stay_in_childrenMap_witness:
  "card_tree (recomputed scenario_card {2, 3}) scenario_forest
   \<and> openNodes_resolve (recomputed scenario_card {2, 3})
   \<and> item_C \<in> set (children (recomputed scenario_card {2, 3}))
   \<and> (\<exists>c'. toggle (recomputed scenario_card {2, 3}) item_C = Some (Inr c')
          \<and> openNodes_resolve c')
   \<and> (\<exists>c'. toggleFullTree (recomputed scenario_card {2, 3}) item_C = Some (Inr c')
          \<and> openNodes_resolve c')"
proof -
  define s where "s = recomputed scenario_card {2, 3}"
  have ct: "card_tree s scenario_forest"
    unfolding s_def by (rule scenario_card_tree)
  have v: "openNodes_resolve s"
    unfolding s_def
    by (simp add: openNodes_resolve_def childrenMap_def dom_map_of_conv_image_fst scenario_defs)
  have m: "item_C \<in> set (children s)"
    unfolding s_def by (simp add: scenario_defs)
  note T = openNodes_stay_in_childrenMap [OF ct v, of "\<lambda>f. f" literal_search]
  from T have "\<forall>n \<in> set (children s).
            (\<exists>c'. toggle s n = Some (Inr c') \<and> openNodes_resolve c')
          \<and> (\<exists>c'. toggleFullTree s n = Some (Inr c') \<and> openNodes_resolve c')"
    by (elim conjE)
  from bspec [OF this m] ct v m show ?thesis
    unfolding s_def by simp
qed

text \<open>
  C7 as it is written fails for the restoration. The persisted technology is that of
  the component and the one persisted rendered uid is a node, so the state is
  restored, and with it the persisted open uid 99, which no node has.
\<close>

theorem restored_openNodes_counterexample:
  "(case restorePersistedState (\<lambda>f. f) literal_search
            (new_card ''T'' (flattenNestedData [tree_A, tree_B] INDEX_ROOT_KEY) []
               \<lparr>STORAGE_KEYS_filter = None, STORAGE_KEYS_technology = Some ''T'',
                STORAGE_KEYS_openNodes = Some {99}, STORAGE_KEYS_nodesToRender = Some [1],
                STORAGE_KEYS_selectedTags = None\<rparr>) of
      Some (Inr c') \<Rightarrow>
        openNodes c' = {99} \<and> nodesToRender c' = [item_A] \<and> childrenMap c' 99 = None
        \<and> \<not> openNodes_resolve c'
    | _ \<Rightarrow> False)"
  by (simp add: scenario_defs method_defs track_defs openNodes_resolve_def)

subsection \<open>Restoring the persisted state\<close>

text \<open>
  The persisted state is taken over: there is a persisted rendered uid or a persisted
  filter text, the persisted technology is that of the component, and every persisted
  rendered uid is a key of the node map.
\<close>

definition persisted_state_usable :: "NavigatorCard \<Rightarrow> bool" where
  "persisted_state_usable c =
     (let st = sessionStorage c;
          ns = (case STORAGE_KEYS_nodesToRender st of None \<Rightarrow> [] | Some ns \<Rightarrow> ns);
          f = (case STORAGE_KEYS_filter st of None \<Rightarrow> [] | Some f \<Rightarrow> f)
      in (ns \<noteq> [] \<or> f \<noteq> [])
         \<and> STORAGE_KEYS_technology st = Some (technology c)
         \<and> (\<forall>u \<in> set ns. childrenMap c u \<noteq> None))"

text \<open>The component with the persisted open nodes, rendered nodes, tags and filter text.\<close>

definition restored_state :: "NavigatorCard \<Rightarrow> NavigatorCard" where
  "restored_state c =
     (let st = sessionStorage c;
          ns = (case STORAGE_KEYS_nodesToRender st of None \<Rightarrow> [] | Some ns \<Rightarrow> ns);
          f = (case STORAGE_KEYS_filter st of None \<Rightarrow> [] | Some f \<Rightarrow> f)
      in c\<lparr>openNodes := (case STORAGE_KEYS_openNodes st of None \<Rightarrow> {} | Some opn \<Rightarrow> opn),
           nodesToRender := map (\<lambda>u. the (childrenMap c u)) ns,
           selectedTags := (case STORAGE_KEYS_selectedTags st of None \<Rightarrow> [] | Some ts \<Rightarrow> ts),
           filter_input := f,
           debouncedFilter := f\<rparr>)"

lemma trackOpenNodes_first:
  assumes ct: "card_tree c forest" and fresh: "debouncedFilter c = []" "selectedTags c = []"
    and nof: "(case STORAGE_KEYS_filter (sessionStorage c) of None \<Rightarrow> [] | Some f \<Rightarrow> f) = []"
    and now: "nodeChangeDeps shp search c = Inr now"
  shows "trackOpenNodes shp search c now None
     = Some (Inr (recomputed c (openNodes c \<union> uid ` set (deps_activePathChildren now))))"
proof -
  note d = nodeChangeDeps_fields [OF now]
  have h: "\<not> hasFilter c" using fresh by (simp add: hasFilter_def)
  then have h': "\<not> hasFilter (c\<lparr>openNodes := opn\<rparr>)" for opn
    by (simp add: hasFilter_def)
  have "recomputed (c\<lparr>openNodes := opn\<rparr>) opn = recomputed c opn" for opn
    by (simp add: recomputed_def)
  with generateNodesToRender_unfiltered [OF h'] have
    g: "generateNodesToRender shp search (c\<lparr>openNodes := opn\<rparr>) = Some (Inr (recomputed c opn))"
    for opn by simp
  show ?thesis
    unfolding trackOpenNodes_def using h d fresh nof g
    by (simp add: Let_def split: option.splits)
qed

text \<open>
  C6, amended. When the component is created, the persisted state is restored if and
  only if there is a persisted rendered uid or a persisted filter text, the persisted
  technology is that of the component and every persisted rendered uid is a key of the
  node map. Otherwise, when no filter text is persisted, the persisted state is
  discarded without an error, and the open nodes and the rendered list are computed
  afresh: the nodes of the active path are open and the rendered list is the
  unfiltered recompute.
\<close>

theorem restore_or_recompute:
  assumes ct: "card_tree c forest"
    and fresh: "openNodes c = {}" "debouncedFilter c = []" "selectedTags c = []"
  shows "(persisted_state_usable c \<longrightarrow>
            restorePersistedState shp search c = Some (Inr (restored_state c)))
     \<and> (\<not> persisted_state_usable c \<longrightarrow>
            (\<exists>now. nodeChangeDeps shp search c = Inr now
               \<and> restorePersistedState shp search c = trackOpenNodes shp search c now None))
     \<and> (\<not> persisted_state_usable c
          \<and> (case STORAGE_KEYS_filter (sessionStorage c) of None \<Rightarrow> [] | Some f \<Rightarrow> f) = [] \<longrightarrow>
            (\<exists>ns. activePathChildren c = Inr ns
               \<and> restorePersistedState shp search c
                   = Some (Inr (recomputed c (uid ` set ns)))))"
proof (intro conjI impI)
  assume "persisted_state_usable c"
  then show "restorePersistedState shp search c = Some (Inr (restored_state c))"
    unfolding restorePersistedState_def persisted_state_usable_def restored_state_def
    by (auto simp: Let_def)
next
  assume a: "\<not> persisted_state_usable c"
  from nodeChangeDeps_card [OF ct] obtain now where
    now: "nodeChangeDeps shp search c = Inr now" by blast
  have "restorePersistedState shp search c = trackOpenNodes shp search c now None"
    using a now unfolding restorePersistedState_def persisted_state_usable_def
    by (auto simp: Let_def)
  with now show "\<exists>now. nodeChangeDeps shp search c = Inr now
               \<and> restorePersistedState shp search c = trackOpenNodes shp search c now None"
    by blast
next
  assume a: "\<not> persisted_state_usable c
          \<and> (case STORAGE_KEYS_filter (sessionStorage c) of None \<Rightarrow> [] | Some f \<Rightarrow> f) = []"
  from nodeChangeDeps_card [OF ct] obtain now where
    now: "nodeChangeDeps shp search c = Inr now" by blast
  from a have nof: "(case STORAGE_KEYS_filter (sessionStorage c) of None \<Rightarrow> [] | Some f \<Rightarrow> f) = []"
    by simp
  have t: "trackOpenNodes shp search c now None
     = Some (Inr (recomputed c (uid ` set (deps_activePathChildren now))))"
    using trackOpenNodes_first [OF ct fresh(2,3) nof now] fresh(1) by simp
  have "restorePersistedState shp search c = trackOpenNodes shp search c now None"
    using a now unfolding restorePersistedState_def persisted_state_usable_def
    by (auto simp: Let_def)
  with t nodeChangeDeps_fields [OF now]
  show "\<exists>ns. activePathChildren c = Inr ns
               \<and> restorePersistedState shp search c
                   = Some (Inr (recomputed c (uid ` set ns)))"
    by auto
qed

text \<open>
  Two components about to be created over the scenario tree, with C active: one finds
  its own persisted state, the other the state of another technology.
\<close>

definition card_with_own_state :: NavigatorCard where
  "card_with_own_state =
     new_card ''T'' (flattenNestedData scenario_forest INDEX_ROOT_KEY) [''/b'', ''/b/c'']
       \<lparr>STORAGE_KEYS_filter = None, STORAGE_KEYS_technology = Some ''T'',
        STORAGE_KEYS_openNodes = Some {2}, STORAGE_KEYS_nodesToRender = Some [1, 2, 3, 4],
        STORAGE_KEYS_selectedTags = None\<rparr>"

definition card_with_other_state :: NavigatorCard where
  "card_with_other_state =
     new_card ''T'' (flattenNestedData scenario_forest INDEX_ROOT_KEY) [''/b'', ''/b/c'']
       \<lparr>STORAGE_KEYS_filter = None, STORAGE_KEYS_technology = Some ''U'',
        STORAGE_KEYS_openNodes = Some {1}, STORAGE_KEYS_nodesToRender = Some [1, 2],
        STORAGE_KEYS_selectedTags = None\<rparr>"

theorem restore_or_recompute_witness:
  "card_tree card_with_own_state scenario_forest
   \<and> persisted_state_usable card_with_own_state
   \<and> (\<exists>c'. restorePersistedState (\<lambda>f. f) literal_search card_with_own_state
               = Some (Inr c')
         \<and> openNodes c' = {2} \<and> nodesToRender c' = [item_A, item_B', item_C, item_D])
   \<and> card_tree card_with_other_state scenario_forest
   \<and> \<not> persisted_state_usable card_with_other_state
   \<and> (\<exists>c'. restorePersistedState (\<lambda>f. f) literal_search card_with_other_state
               = Some (Inr c')
         \<and> openNodes c' = {2, 3} \<and> nodesToRender c' = [item_A, item_B', item_C, item_D])"
proof -
  have ct1: "card_tree card_with_own_state scenario_forest"
    by (simp add: card_with_own_state_def card_tree_def flat_tree_invariants_def scenario_defs)
  have ct2: "card_tree card_with_other_state scenario_forest"
    by (simp add: card_with_other_state_def card_tree_def flat_tree_invariants_def
        scenario_defs)
  have f1: "openNodes card_with_own_state = {}" "debouncedFilter card_with_own_state = []"
    "selectedTags card_with_own_state = []"
    by (simp_all add: card_with_own_state_def new_card_def)
  have f2: "openNodes card_with_other_state = {}" "debouncedFilter card_with_other_state = []"
    "selectedTags card_with_other_state = []"
    by (simp_all add: card_with_other_state_def new_card_def)
  have u1: "persisted_state_usable card_with_own_state"
    by (simp add: persisted_state_usable_def card_with_own_state_def scenario_defs
        childrenMap_def)
  have u2: "\<not> persisted_state_usable card_with_other_state"
    by (simp add: persisted_state_usable_def card_with_other_state_def scenario_defs)
  have nf2: "(case STORAGE_KEYS_filter (sessionStorage card_with_other_state) of
                None \<Rightarrow> [] | Some f \<Rightarrow> f) = []"
    by (simp add: card_with_other_state_def new_card_def)
  have a2: "activePathChildren card_with_other_state = Inr [item_B', item_C]"
    by (simp add: card_with_other_state_def activePathChildren_def childrenMap_def
        scenario_defs)
  note T1 = restore_or_recompute [OF ct1 f1, of "\<lambda>f. f" literal_search]
  note T2 = restore_or_recompute [OF ct2 f2, of "\<lambda>f. f" literal_search]
  from T1 u1 have r1: "restorePersistedState (\<lambda>f. f) literal_search card_with_own_state
      = Some (Inr (restored_state card_with_own_state))"
    by (elim conjE) (erule mp)
  from T2 u2 nf2 a2 have r2: "restorePersistedState (\<lambda>f. f) literal_search card_with_other_state
      = Some (Inr (recomputed card_with_other_state (uid ` set [item_B', item_C])))"
    by auto
  have e1: "openNodes (restored_state card_with_own_state) = {2}"
    "nodesToRender (restored_state card_with_own_state) = [item_A, item_B', item_C, item_D]"
    by (simp_all add: restored_state_def card_with_own_state_def scenario_defs childrenMap_def)
  have e2: "openNodes (recomputed card_with_other_state (uid ` set [item_B', item_C])) = {2, 3}"
    "nodesToRender (recomputed card_with_other_state (uid ` set [item_B', item_C]))
       = [item_A, item_B', item_C, item_D]"
    by (simp_all add: card_with_other_state_def scenario_defs shown_def openNodes_at_def)
  from ct1 ct2 u1 u2 r1 r2 e1 e2 show ?thesis by simp
qed

text \<open>
  C6 as it is written fails. The persisted technology is that of the component and
  every persisted rendered uid is a node (there is none), yet the persisted state,
  left by a tag filter without a match, is not restored: the tag stays unselected and
  the unfiltered list is rendered.
\<close>

theorem empty_persisted_list_counterexample:
  "(case restorePersistedState (\<lambda>f. f) literal_search
            (new_card ''T'' (flattenNestedData [tree_A, tree_B] INDEX_ROOT_KEY) []
               \<lparr>STORAGE_KEYS_filter = None, STORAGE_KEYS_technology = Some ''T'',
                STORAGE_KEYS_openNodes = Some {}, STORAGE_KEYS_nodesToRender = Some [],
                STORAGE_KEYS_selectedTags = Some [FILTER_TAGS_sampleCode]\<rparr>) of
      Some (Inr c') \<Rightarrow>
        selectedTags c' = [] \<and> selectedTags c' \<noteq> [FILTER_TAGS_sampleCode]
        \<and> nodesToRender c' = [item_A, item_B] \<and> nodesToRender c' \<noteq> []
    | _ \<Rightarrow> False)"
  by (simp add: scenario_defs method_defs track_defs)

subsection \<open>The tag suggestions and the selected tags\<close>

text \<open>
  C10, amended. Once a tag is selected no tag is suggested; with no tag selected the
  three labels Sample Code, Tutorials and Articles are suggested, in this order. So the
  suggestions never offer a second tag. The selection itself can still hold tags of
  several categories: a persisted state that is taken over is restored with its list of
  selected tags as it was stored, and with tags selected and no filter text the filter
  keeps every node, group markers apart, whose type maps to any one of the selected
  tags.
\<close>

theorem availableTags_suggestions:
  "(selTags \<noteq> [] \<longrightarrow> availableTags selTags = [])
   \<and> (selTags = [] \<longrightarrow> availableTags selTags = [''Sample Code'', ''Tutorials'', ''Articles''])
   \<and> (persisted_state_usable c \<longrightarrow>
        (\<exists>c'. restorePersistedState shp search c = Some (Inr c')
           \<and> selectedTags c'
               = (case STORAGE_KEYS_selectedTags (sessionStorage c) of None \<Rightarrow> [] | Some ts \<Rightarrow> ts)))
   \<and> (selectedTags c \<noteq> [] \<and> debouncedFilter c = [] \<longrightarrow>
        filteredChildren shp search c
          = filter (\<lambda>n. (\<exists>t \<in> set (selectedTags c). TOPIC_TYPE_TO_TAG (type n) = Some t)
                        \<and> type n \<noteq> TopicTypes_groupMarker)
              (children c))"
proof (intro conjI impI)
  show "availableTags selTags = []" if "selTags \<noteq> []"
    using that by (simp add: availableTags_def)
  show "availableTags selTags = [''Sample Code'', ''Tutorials'', ''Articles'']" if "selTags = []"
    using that by (simp add: availableTags_def FILTER_TAGS_TO_LABELS_def)
next
  assume "persisted_state_usable c"
  then have "restorePersistedState shp search c = Some (Inr (restored_state c))"
    unfolding restorePersistedState_def persisted_state_usable_def restored_state_def
    by (auto simp: Let_def)
  moreover have "selectedTags (restored_state c)
      = (case STORAGE_KEYS_selectedTags (sessionStorage c) of None \<Rightarrow> [] | Some ts \<Rightarrow> ts)"
    by (simp add: restored_state_def Let_def)
  ultimately show "\<exists>c'. restorePersistedState shp search c = Some (Inr c')
           \<and> selectedTags c'
               = (case STORAGE_KEYS_selectedTags (sessionStorage c) of None \<Rightarrow> [] | Some ts \<Rightarrow> ts)"
    by simp
next
  assume a: "selectedTags c \<noteq> [] \<and> debouncedFilter c = []"
  then have h: "hasFilter c" by (simp add: hasFilter_def)
  from a have p: "filterPattern shp (debouncedFilter c) = None"
    by (simp add: filterPattern_def)
  have "spec_node_matches search None (selectedTags c)
      = (\<lambda>n. (\<exists>t \<in> set (selectedTags c). TOPIC_TYPE_TO_TAG (type n) = Some t)
                        \<and> type n \<noteq> TopicTypes_groupMarker)"
    using a by (intro ext) (simp add: spec_node_matches_def)
  with h p show "filteredChildren shp search c
          = filter (\<lambda>n. (\<exists>t \<in> set (selectedTags c). TOPIC_TYPE_TO_TAG (type n) = Some t)
                        \<and> type n \<noteq> TopicTypes_groupMarker)
              (children c)"
    by (simp add: filteredChildren_eq_filter)
qed

text \<open>
  A component about to be created over the tree A, B with C below B that finds its own
  persisted state, with the two tags Tutorials and Articles selected.
\<close>

definition card_with_stored_tags :: NavigatorCard where
  "card_with_stored_tags =
     new_card ''T'' (flattenNestedData [tree_A, tree_B] INDEX_ROOT_KEY) []
       \<lparr>STORAGE_KEYS_filter = None, STORAGE_KEYS_technology = Some ''T'',
        STORAGE_KEYS_openNodes = Some {2}, STORAGE_KEYS_nodesToRender = Some [1, 2, 3],
        STORAGE_KEYS_selectedTags = Some [FILTER_TAGS_tutorials, FILTER_TAGS_articles]\<rparr>"

theorem availableTags_suggestions_witness:
  "availableTags [FILTER_TAGS_tutorials] = []
   \<and> availableTags [] = [''Sample Code'', ''Tutorials'', ''Articles'']
   \<and> persisted_state_usable card_with_stored_tags
   \<and> (\<exists>c'. restorePersistedState (\<lambda>f. f) literal_search card_with_stored_tags = Some (Inr c')
         \<and> selectedTags c' = [FILTER_TAGS_tutorials, FILTER_TAGS_articles])
   \<and> selectedTags (restored_state card_with_stored_tags) \<noteq> []
   \<and> debouncedFilter (restored_state card_with_stored_tags) = []
   \<and> filteredChildren (\<lambda>f. f) literal_search (restored_state card_with_stored_tags)
       = [item_A, item_B, item_C]"
proof -
  have u: "persisted_state_usable card_with_stored_tags"
    by (simp add: persisted_state_usable_def card_with_stored_tags_def scenario_defs
        childrenMap_def)
  have s: "selectedTags (restored_state card_with_stored_tags) \<noteq> []
           \<and> debouncedFilter (restored_state card_with_stored_tags) = []"
    by (simp add: restored_state_def card_with_stored_tags_def new_card_def Let_def)
  note T1 = availableTags_suggestions
    [of "[FILTER_TAGS_tutorials]" card_with_stored_tags "\<lambda>f. f" literal_search]
  note T2 = availableTags_suggestions
    [of "[]" "restored_state card_with_stored_tags" "\<lambda>f. f" literal_search]
  from T1 have a1: "availableTags [FILTER_TAGS_tutorials] = []" by simp
  from T2 have a2: "availableTags [] = [''Sample Code'', ''Tutorials'', ''Articles'']" by simp
  have r: "\<exists>c'. restorePersistedState (\<lambda>f. f) literal_search card_with_stored_tags
        = Some (Inr c')
      \<and> selectedTags c'
          = (case STORAGE_KEYS_selectedTags (sessionStorage card_with_stored_tags) of
               None \<Rightarrow> [] | Some ts \<Rightarrow> ts)"
    by (rule mp [OF conjunct1 [OF conjunct2 [OF conjunct2 [OF T1]]] u])
  have st: "(case STORAGE_KEYS_selectedTags (sessionStorage card_with_stored_tags) of
               None \<Rightarrow> [] | Some ts \<Rightarrow> ts) = [FILTER_TAGS_tutorials, FILTER_TAGS_articles]"
    by (simp add: card_with_stored_tags_def new_card_def)
  have f: "filteredChildren (\<lambda>f. f) literal_search (restored_state card_with_stored_tags)
      = filter (\<lambda>n. (\<exists>t \<in> set (selectedTags (restored_state card_with_stored_tags)).
                        TOPIC_TYPE_TO_TAG (type n) = Some t)
                    \<and> type n \<noteq> TopicTypes_groupMarker)
          (children (restored_state card_with_stored_tags))"
    by (rule mp [OF conjunct2 [OF conjunct2 [OF conjunct2 [OF T2]]] s])
  have e: "filter (\<lambda>n. (\<exists>t \<in> set (selectedTags (restored_state card_with_stored_tags)).
                        TOPIC_TYPE_TO_TAG (type n) = Some t)
                    \<and> type n \<noteq> TopicTypes_groupMarker)
          (children (restored_state card_with_stored_tags)) = [item_A, item_B, item_C]"
    by (simp add: restored_state_def card_with_stored_tags_def scenario_defs Let_def)
  from a1 a2 u r s f show ?thesis unfolding st e by simp
qed

text \<open>
  C10 as it is written fails in its conclusion. The persisted list of the two tags
  Tutorials and Articles is restored as it is; no tag is suggested then, and the one
  filter keeps the article A together with the tutorials B and C.
\<close>

theorem combined_tags_counterexample:
  "(case restorePersistedState (\<lambda>f. f) literal_search card_with_stored_tags of
      Some (Inr c') \<Rightarrow>
        selectedTags c' = [FILTER_TAGS_tutorials, FILTER_TAGS_articles]
        \<and> availableTags (selectedTags c') = []
        \<and> filteredChildren (\<lambda>f. f) literal_search c' = [item_A, item_B, item_C]
        \<and> TOPIC_TYPE_TO_TAG (type item_A) = Some FILTER_TAGS_articles
        \<and> TOPIC_TYPE_TO_TAG (type item_B) = Some FILTER_TAGS_tutorials
    | _ \<Rightarrow> False)"
  by (simp add: card_with_stored_tags_def scenario_defs method_defs track_defs availableTags_def
      filteredChildren_callback_def)

subsection \<open>The filtered recompute\<close>

text \<open>
  A list of nodes is a path down from the parent key \<open>p\<close>: the parent of the first is
  \<open>p\<close>, and the parent of every other is the node before it.
\<close>

fun parent_linked :: "parent_key \<Rightarrow> NavigatorFlatItem list \<Rightarrow> bool" where
  "parent_linked p [] = True"
| "parent_linked p (x # xs) = (parent x = p \<and> parent_linked (UID (uid x)) xs)"

lemma ancestor_chain_linked: "parent_linked p (ancestor_chain ts p v)"
  by (induction ts p rule: flattenNestedData.induct) (auto split: list.splits)

lemma ancestor_chain_last:
  "ancestor_chain ts p v \<noteq> [] \<Longrightarrow> uid (last (ancestor_chain ts p v)) = v"
  by (induction ts p rule: flattenNestedData.induct) (auto split: list.splits if_splits)

lemma ancestor_chain_node:
  assumes "card_tree c forest" "m \<in> set (children c)"
  shows "ancestor_chain forest INDEX_ROOT_KEY (uid m) \<noteq> []"
    and "last (ancestor_chain forest INDEX_ROOT_KEY (uid m)) = m"
    and "parent_linked INDEX_ROOT_KEY (ancestor_chain forest INDEX_ROOT_KEY (uid m))"
proof -
  have "uid m \<in> uid ` set (flattenNestedData forest INDEX_ROOT_KEY)"
    using assms by (auto simp: card_tree_def)
  then show ne: "ancestor_chain forest INDEX_ROOT_KEY (uid m) \<noteq> []"
    by (rule ancestor_chain_present)
  then have "last (ancestor_chain forest INDEX_ROOT_KEY (uid m))
      \<in> set (ancestor_chain forest INDEX_ROOT_KEY (uid m))"
    by (rule last_in_set)
  with ancestor_chain_in_children [OF assms(1), of "uid m"]
  have "last (ancestor_chain forest INDEX_ROOT_KEY (uid m)) \<in> set (children c)" by blast
  with ancestor_chain_last [OF ne] assms
  show "last (ancestor_chain forest INDEX_ROOT_KEY (uid m)) = m"
    by (intro card_tree_uid_inj [OF assms(1)]) simp_all
  show "parent_linked INDEX_ROOT_KEY (ancestor_chain forest INDEX_ROOT_KEY (uid m))"
    by (rule ancestor_chain_linked)
qed

lemma filtered_callback:
  assumes ct: "card_tree c forest" and fc: "set fc \<subseteq> set (children c)"
  shows "generateNodesToRender_callback True opn (childrenMap c) acm fc x
     = (x \<in> set acm \<or> (\<exists>p \<in> set fc. parent x = UID (uid p) \<and> uid p \<in> opn))"
proof -
  have "(openNodes_at opn (parent x)
          \<and> (case childrenMap_at (childrenMap c) (parent x) of None \<Rightarrow> False
              | Some p \<Rightarrow> p \<in> set fc))
      = (\<exists>p \<in> set fc. parent x = UID (uid p) \<and> uid p \<in> opn)"
  proof (cases "parent x")
    case INDEX_ROOT_KEY
    then show ?thesis by (simp add: openNodes_at_def)
  next
    case (UID v)
    show ?thesis
    proof
      assume "openNodes_at opn (parent x)
          \<and> (case childrenMap_at (childrenMap c) (parent x) of None \<Rightarrow> False
              | Some p \<Rightarrow> p \<in> set fc)"
      with UID obtain p where "v \<in> opn" "childrenMap c v = Some p" "p \<in> set fc"
        by (auto simp: openNodes_at_def childrenMap_at_def split: option.splits)
      with childrenMap_in_children [of c v p] UID
      show "\<exists>p \<in> set fc. parent x = UID (uid p) \<and> uid p \<in> opn" by auto
    next
      assume "\<exists>p \<in> set fc. parent x = UID (uid p) \<and> uid p \<in> opn"
      then obtain p where p: "p \<in> set fc" "parent x = UID (uid p)" "uid p \<in> opn" by blast
      with fc have "childrenMap c (uid p) = Some p"
        by (intro childrenMap_distinct card_tree_distinct [OF ct]) auto
      with p show "openNodes_at opn (parent x)
          \<and> (case childrenMap_at (childrenMap c) (parent x) of None \<Rightarrow> False
              | Some p \<Rightarrow> p \<in> set fc)"
        by (simp add: openNodes_at_def childrenMap_at_def)
    qed
  qed
  then show ?thesis
    by (auto simp: generateNodesToRender_callback_def)
qed

text \<open>
  C2, amended. In filtered mode the recompute returns, in the order of the flat list,
  exactly the direct matches, the nodes on the ancestor chains of the matches, and the
  children of every open node that is itself a direct match; every other node is left
  out. The ancestor chain of a match is the path of parent links from a top-level node
  down to the match.
\<close>

theorem filtered_recompute:
  assumes ct: "card_tree c forest" and hf: "hasFilter c"
  shows "(\<exists>c'. generateNodesToRender shp search c = Some (Inr c')
            \<and> nodesToRender c'
                = filter (\<lambda>x. x \<in> set (matches_with_ancestors forest
                                          (filteredChildren shp search c))
                             \<or> (\<exists>p \<in> set (filteredChildren shp search c).
                                   parent x = UID (uid p) \<and> uid p \<in> openNodes c))
                    (children c))
     \<and> set (matches_with_ancestors forest (filteredChildren shp search c))
          = (\<Union>m \<in> set (filteredChildren shp search c).
               set (ancestor_chain forest INDEX_ROOT_KEY (uid m)))
     \<and> (\<forall>m \<in> set (filteredChildren shp search c).
           ancestor_chain forest INDEX_ROOT_KEY (uid m) \<noteq> []
           \<and> last (ancestor_chain forest INDEX_ROOT_KEY (uid m)) = m
           \<and> parent_linked INDEX_ROOT_KEY (ancestor_chain forest INDEX_ROOT_KEY (uid m)))"
proof (intro conjI ballI)
  have "generateNodesToRender_callback (hasFilter c) (openNodes c) (childrenMap c)
          (matches_with_ancestors forest (filteredChildren shp search c))
          (filteredChildren shp search c)
      = (\<lambda>x. x \<in> set (matches_with_ancestors forest (filteredChildren shp search c))
               \<or> (\<exists>p \<in> set (filteredChildren shp search c).
                     parent x = UID (uid p) \<and> uid p \<in> openNodes c))"
    using hf by (intro ext) (simp add: filtered_callback [OF ct filteredChildren_subset])
  with generateNodesToRender_card [OF ct, of shp search]
  show "\<exists>c'. generateNodesToRender shp search c = Some (Inr c')
            \<and> nodesToRender c'
                = filter (\<lambda>x. x \<in> set (matches_with_ancestors forest
                                          (filteredChildren shp search c))
                             \<or> (\<exists>p \<in> set (filteredChildren shp search c).
                                   parent x = UID (uid p) \<and> uid p \<in> openNodes c))
                    (children c)"
    by (simp add: persistState_def)
next
  show "set (matches_with_ancestors forest (filteredChildren shp search c))
          = (\<Union>m \<in> set (filteredChildren shp search c).
               set (ancestor_chain forest INDEX_ROOT_KEY (uid m)))"
    by (simp add: matches_with_ancestors_def)
next
  fix m assume "m \<in> set (filteredChildren shp search c)"
  with filteredChildren_subset have m: "m \<in> set (children c)" by blast
  show "ancestor_chain forest INDEX_ROOT_KEY (uid m) \<noteq> []"
    by (rule ancestor_chain_node(1) [OF ct m])
  show "last (ancestor_chain forest INDEX_ROOT_KEY (uid m)) = m"
    by (rule ancestor_chain_node(2) [OF ct m])
  show "parent_linked INDEX_ROOT_KEY (ancestor_chain forest INDEX_ROOT_KEY (uid m))"
    by (rule ancestor_chain_node(3) [OF ct m])
qed

text \<open>
  The scenario tree under the tag filter Tutorials, which B and C match, with B open.
\<close>

definition tag_filtered_card :: NavigatorCard where
  "tag_filtered_card =
     (new_card ''T'' (flattenNestedData scenario_forest INDEX_ROOT_KEY) [] empty_storage)
       \<lparr>selectedTags := [FILTER_TAGS_tutorials], openNodes := {2}\<rparr>"

theorem filtered_recompute_witness:
  "card_tree tag_filtered_card scenario_forest
   \<and> hasFilter tag_filtered_card
   \<and> filteredChildren (\<lambda>f. f) literal_search tag_filtered_card = [item_B', item_C]
   \<and> (\<exists>c'. generateNodesToRender (\<lambda>f. f) literal_search tag_filtered_card = Some (Inr c')
          \<and> nodesToRender c' = [item_B', item_C, item_D])"
proof -
  have ct: "card_tree tag_filtered_card scenario_forest"
    by (simp add: tag_filtered_card_def card_tree_def flat_tree_invariants_def scenario_defs)
  have hf: "hasFilter tag_filtered_card"
    by (simp add: tag_filtered_card_def hasFilter_def new_card_def)
  have fc: "filteredChildren (\<lambda>f. f) literal_search tag_filtered_card = [item_B', item_C]"
    by (simp add: tag_filtered_card_def scenario_defs track_defs hasFilter_def)
  have e: "filter (\<lambda>x. x \<in> set (matches_with_ancestors scenario_forest [item_B', item_C])
                     \<or> (\<exists>p \<in> set [item_B', item_C].
                           parent x = UID (uid p) \<and> uid p \<in> openNodes tag_filtered_card))
          (children tag_filtered_card) = [item_B', item_C, item_D]"
    by (simp add: matches_with_ancestors_def tag_filtered_card_def scenario_defs)
  note T = filtered_recompute [OF ct hf, of "\<lambda>f. f" literal_search]
  from conjunct1 [OF T] obtain c' where
    g: "generateNodesToRender (\<lambda>f. f) literal_search tag_filtered_card = Some (Inr c')"
    and v: "nodesToRender c'
       = filter (\<lambda>x. x \<in> set (matches_with_ancestors scenario_forest
                                 (filteredChildren (\<lambda>f. f) literal_search tag_filtered_card))
                    \<or> (\<exists>p \<in> set (filteredChildren (\<lambda>f. f) literal_search tag_filtered_card).
                          parent x = UID (uid p) \<and> uid p \<in> openNodes tag_filtered_card))
           (children tag_filtered_card)"
    by (elim exE conjE) (rule that; assumption)
  have "nodesToRender c' = [item_B', item_C, item_D]"
    unfolding v fc by (rule e)
  with g ct hf fc show ?thesis by blast
qed

text \<open>
  C2 as it is written fails. Under the tag filter Tutorials the matches in the
  scenario tree are B and C, and B is their only ancestor; B is open after the filter
  change because C lies below it. The recompute renders B, C and also D, a child of
  the open match B that is neither a match nor an ancestor of one.
\<close>

theorem filtered_recompute_counterexample:
  "(case restorePersistedState (\<lambda>f. f) literal_search
            (new_card ''T'' (flattenNestedData scenario_forest INDEX_ROOT_KEY) []
               empty_storage) of
      Some (Inr m) \<Rightarrow>
        (case nodeChangeDeps_watcher (\<lambda>f. f) literal_search m
                (m\<lparr>selectedTags := [FILTER_TAGS_tutorials]\<rparr>) of
           Some (Inr s) \<Rightarrow>
             hasFilter s
             \<and> filteredChildren (\<lambda>f. f) literal_search s = [item_B', item_C]
             \<and> set (matches_with_ancestors scenario_forest
                      (filteredChildren (\<lambda>f. f) literal_search s)) = {item_B', item_C}
             \<and> openNodes s = {2}
             \<and> nodesToRender s = [item_B', item_C, item_D]
             \<and> item_D \<notin> set (matches_with_ancestors scenario_forest
                                (filteredChildren (\<lambda>f. f) literal_search s))
         | _ \<Rightarrow> False)
    | _ \<Rightarrow> False)"
  by (simp add: scenario_defs method_defs track_defs matches_with_ancestors_def)

subsection \<open>The invariants of the flat list, and the states after the creation\<close>

lemma root_items_facts:
  "map uid (root_items ts p) = map node_uid ts"
  "x \<in> set (root_items ts p) \<Longrightarrow> parent x = p"
  "set (root_items ts p) \<subseteq> set (flattenNestedData ts p)"
  by (induction ts p rule: flattenNestedData.induct) auto

text \<open>
  The invariants that the specification states for the flat list hold for the
  flattening of a tree with pairwise different uids: every parent is the root key or a
  node of the list, every child uid is the uid of a node whose parent is the node that
  lists it, and every node with that parent is listed.
\<close>

lemma card_tree_invariants:
  assumes ct: "card_tree c forest"
  shows "distinct (map uid (children c))"
    and "\<forall>n \<in> set (children c).
           parent n = INDEX_ROOT_KEY \<or> (\<exists>p \<in> set (children c). parent n = UID (uid p))"
    and "\<forall>n \<in> set (children c). \<forall>u \<in> set (childUIDs n).
           \<exists>m \<in> set (children c). uid m = u \<and> parent m = UID (uid n)"
    and "\<forall>n \<in> set (children c). \<forall>m \<in> set (children c).
           parent m = UID (uid n) \<longrightarrow> uid m \<in> set (childUIDs n)"
proof -
  show "distinct (map uid (children c))"
    by (rule card_tree_distinct [OF ct])
  show "\<forall>n \<in> set (children c).
           parent n = INDEX_ROOT_KEY \<or> (\<exists>p \<in> set (children c). parent n = UID (uid p))"
    using parent_flatten [of _ forest INDEX_ROOT_KEY] ct by (auto simp: card_tree_def)
  show "\<forall>n \<in> set (children c). \<forall>u \<in> set (childUIDs n).
           \<exists>m \<in> set (children c). uid m = u \<and> parent m = UID (uid n)"
  proof (intro ballI)
    fix n u assume n: "n \<in> set (children c)" and u: "u \<in> set (childUIDs n)"
    from node_subtree [OF ct n] obtain pre ch post where
      sub: "subtree_at (children c) pre n (flattenNestedData ch (UID (uid n))) post"
      and ch: "childUIDs n = map node_uid ch"
      by blast
    from u ch have "u \<in> set (map uid (root_items ch (UID (uid n))))"
      by (simp add: root_items_facts(1))
    then obtain m where m: "m \<in> set (root_items ch (UID (uid n)))" "uid m = u" by auto
    with root_items_facts(3) [of ch "UID (uid n)"] subtree_at_subset [OF sub]
    have "m \<in> set (children c)" by auto
    with m root_items_facts(2) [OF m(1)]
    show "\<exists>m \<in> set (children c). uid m = u \<and> parent m = UID (uid n)" by blast
  qed
  show "\<forall>n \<in> set (children c). \<forall>m \<in> set (children c).
           parent m = UID (uid n) \<longrightarrow> uid m \<in> set (childUIDs n)"
  proof (intro ballI impI)
    fix n m assume n: "n \<in> set (children c)" and m: "m \<in> set (children c)"
      and p: "parent m = UID (uid n)"
    from node_subtree [OF ct n] obtain pre ch post where
      sub: "subtree_at (children c) pre n (flattenNestedData ch (UID (uid n))) post"
      and ch: "childUIDs n = map node_uid ch" and w: "wf_sub ch (UID (uid n))"
      by blast
    have "m \<notin> set pre \<union> set post \<union> {n}"
    proof
      assume "m \<in> set pre \<union> set post \<union> {n}"
      with sub have "parent m \<notin> UID ` uid ` set (n # flattenNestedData ch (UID (uid n)))"
        unfolding subtree_at_def by blast
      with p show False by simp
    qed
    with subtree_at_cases [OF sub m] have "m \<in> set (flattenNestedData ch (UID (uid n)))"
      by blast
    with p have "m \<in> set (filter (\<lambda>d. parent d = UID (uid n))
                          (flattenNestedData ch (UID (uid n))))"
      by simp
    then have "m \<in> set (root_items ch (UID (uid n)))"
      by (simp only: filter_parent_flatten [OF w])
    then have "uid m \<in> set (map uid (root_items ch (UID (uid n))))" by simp
    then show "uid m \<in> set (childUIDs n)"
      by (simp add: root_items_facts(1) ch)
  qed
qed

lemma parent_linked_parents:
  "parent_linked p ns \<Longrightarrow> x \<in> set ns \<Longrightarrow> parent x = p \<or> parent x \<in> UID ` uid ` set ns"
  by (induction ns arbitrary: p) auto

lemma consistent_after_tracking:
  assumes ct: "card_tree c forest"
    and ns: "set ns \<subseteq> set (children c)" "parent_linked INDEX_ROOT_KEY ns"
    and opn: "\<forall>x \<in> set (children c). uid x \<in> opn \<longrightarrow> shown opn x"
  shows "open_state_consistent (recomputed c (opn \<union> uid ` set ns))"
proof -
  let ?O = "opn \<union> uid ` set ns"
  have "shown ?O x" if x: "x \<in> set (children c)" and o: "uid x \<in> ?O" for x
  proof (cases "uid x \<in> opn")
    case True
    with opn x have "shown opn x" by blast
    then show ?thesis by (rule shown_mono [rotated]) blast
  next
    case False
    with o obtain y where y: "y \<in> set ns" "uid x = uid y" by auto
    with ns(1) have "y \<in> set (children c)" by blast
    with y have "x \<in> set ns"
      using card_tree_uid_inj [OF ct x, of y] by simp
    from parent_linked_parents [OF ns(2) this]
    show ?thesis by (auto simp: shown_def openNodes_at_def)
  qed
  then show ?thesis by (simp add: open_state_consistent_def)
qed

lemma children_of_node:
  assumes ct: "card_tree c forest" and n: "n \<in> set (children c)"
    and x: "x \<in> set (List.map_filter (childrenMap c) (childUIDs n))"
  shows "parent x = UID (uid n)"
proof -
  from x obtain u where u: "u \<in> set (childUIDs n)" "childrenMap c u = Some x"
    by (auto simp: List.map_filter_def)
  from card_tree_invariants(3) [OF ct] n u(1) obtain m where
    m: "m \<in> set (children c)" "uid m = u" "parent m = UID (uid n)" by blast
  from childrenMap_distinct [OF card_tree_distinct [OF ct] m(1)] m(2) u(2)
  have "x = m" by simp
  with m show ?thesis by simp
qed

lemma spec_resolve_from_linked:
  assumes ct: "card_tree c forest"
  shows "set cands \<subseteq> set (children c) \<Longrightarrow> \<forall>x \<in> set cands. parent x = p \<Longrightarrow>
         parent_linked p (spec_resolve_from (childrenMap c) cands segs)"
proof (induction segs arbitrary: cands p)
  case Nil
  then show ?case by simp
next
  case (Cons seg segs)
  show ?case
  proof (cases "find (\<lambda>n. path n = Some seg) cands")
    case None
    then show ?thesis by simp
  next
    case (Some n)
    with Cons.prems have n: "n \<in> set (children c)" "parent n = p"
      by (auto dest: find_SomeD)
    have "parent_linked (UID (uid n))
        (spec_resolve_from (childrenMap c) (List.map_filter (childrenMap c) (childUIDs n)) segs)"
    proof (rule Cons.IH)
      show "set (List.map_filter (childrenMap c) (childUIDs n)) \<subseteq> set (children c)"
        by (auto simp: List.map_filter_def dest: childrenMap_in_children)
      show "\<forall>x \<in> set (List.map_filter (childrenMap c) (childUIDs n)). parent x = UID (uid n)"
        using children_of_node [OF ct n(1)] by blast
    qed
    with Some n show ?thesis by simp
  qed
qed

text \<open>
  The states of the amended C1 and C4 arise: a component that is created without a
  usable persisted state and without a persisted filter text, and whose active path
  starts at a top-level node, is left with the unfiltered recompute as its rendered
  list and with open nodes whose parents are open or the root.
\<close>

lemma created_consistent:
  assumes ct: "card_tree c forest"
    and fresh: "openNodes c = {}" "debouncedFilter c = []" "selectedTags c = []"
    and st: "\<not> persisted_state_usable c"
      "(case STORAGE_KEYS_filter (sessionStorage c) of None \<Rightarrow> [] | Some f \<Rightarrow> f) = []"
    and top: "case activePath c of [] \<Rightarrow> True
              | seg # segs \<Rightarrow> find (\<lambda>n. path n = Some seg) (children c)
                  = find (\<lambda>n. path n = Some seg)
                      (filter (\<lambda>n. parent n = INDEX_ROOT_KEY) (children c))"
  shows "\<exists>c'. restorePersistedState shp search c = Some (Inr c')
           \<and> open_state_consistent c' \<and> \<not> hasFilter c' \<and> card_tree c' forest"
proof -
  define ns where "ns = spec_resolve_from (childrenMap c) (children c) (activePath c)"
  have a: "activePathChildren c = Inr ns"
    unfolding activePathChildren_def ns_def
    using activePathChildren_loop_resolve
      [OF card_tree_childUIDs_resolve [OF ct], of "children c" "activePath c" "[]"]
    by simp
  have sub: "set ns \<subseteq> set (children c)"
    unfolding ns_def by (rule spec_resolve_from_subset) simp
  have "ns = spec_resolve_from (childrenMap c)
               (filter (\<lambda>n. parent n = INDEX_ROOT_KEY) (children c)) (activePath c)"
    unfolding ns_def using top by (cases "activePath c") simp_all
  moreover have "parent_linked INDEX_ROOT_KEY (spec_resolve_from (childrenMap c)
               (filter (\<lambda>n. parent n = INDEX_ROOT_KEY) (children c)) (activePath c))"
    by (rule spec_resolve_from_linked [OF ct]) auto
  ultimately have linked: "parent_linked INDEX_ROOT_KEY ns" by simp
  from nodeChangeDeps_card [OF ct] obtain now where
    now: "nodeChangeDeps shp search c = Inr now" by blast
  with a nodeChangeDeps_fields [OF now] have d: "deps_activePathChildren now = ns" by simp
  have "restorePersistedState shp search c = trackOpenNodes shp search c now None"
    using st(1) now unfolding restorePersistedState_def persisted_state_usable_def
    by (auto simp: Let_def)
  with trackOpenNodes_first [OF ct fresh(2,3) st(2) now] fresh(1) d
  have r: "restorePersistedState shp search c = Some (Inr (recomputed c ({} \<union> uid ` set ns)))"
    by simp
  have "open_state_consistent (recomputed c ({} \<union> uid ` set ns))"
    by (rule consistent_after_tracking [OF ct sub linked]) simp
  moreover have "\<not> hasFilter c" using fresh by (simp add: hasFilter_def)
  ultimately show ?thesis using r ct by auto
qed

end
